theory Spec2Isabelle
  imports Complex_Main "HOL-Library.Word"
begin

section \<open>Conventions of the embedding\<close>

text \<open>
  The C sources are embedded as follows.
  \<^item> \<open>float\<close> values (\<open>t_fld\<close>, \<open>t_part_data\<close>) are reals.  Where a rounded value
    decides a branch, an integer or a range (the test of the moving window, the particle
    push) every operation is rounded to single precision (\<open>fadd\<close>, \<open>fsub\<close>, \<open>fmul\<close>,
    \<open>fdiv\<close>, \<open>fsqrt\<close>, section ``Single and double precision''); the field solver, the laser
    and the current deposition compute real-valued outputs only and are over exact reals.
    Infinities and NaN are not modelled.
  \<^item> A C array or pointer into a buffer is a function from the (signed) C index to the
    element; an assignment \<open>a[k] = v\<close> is the function update \<open>a(k := v)\<close>.  Buffer
    bounds are not part of the model.
  \<^item> \<open>int\<close> values that index cells and count iterations are unbounded integers, and the
    theorems bound them where the code adds to them; the entries of the arrays of the
    prefix sum are 32-bit words, whose sums wrap around.  \<open>int nx[2]\<close>, \<open>gc[2][2]\<close> and
    \<open>dx[2]\<close> are flattened into the fields \<open>nx0 nx1\<close>, \<open>gc00 gc01 gc10 gc11\<close>, \<open>dx0 dx1\<close>.
  \<^item> A counting loop \<open>for (i = lo; i < hi; i++)\<close> is \<open>for_loop lo hi body\<close>; parallel
    loops (\<open>#pragma acc parallel loop\<close>) run their iterations in ascending order.
\<close>

function for_loop :: "int \<Rightarrow> int \<Rightarrow> (int \<Rightarrow> 's \<Rightarrow> 's) \<Rightarrow> 's \<Rightarrow> 's" where
  "for_loop i n body s = (if i < n then for_loop (i + 1) n body (body i s) else s)"
  by pat_completeness auto
termination
  by (relation "measure (\<lambda>(i, n, body, s). nat (n - i))") auto

declare for_loop.simps [simp del]

lemma for_loop_step [simp]: "i < n \<Longrightarrow> for_loop i n body s = for_loop (i + 1) n body (body i s)"
  by (subst for_loop.simps) simp

lemma for_loop_done [simp]: "\<not> i < n \<Longrightarrow> for_loop i n body s = s"
  by (subst for_loop.simps) simp

lemma for_loop_other:
  "(\<And>i s. lo \<le> i \<Longrightarrow> i < hi \<Longrightarrow> body i s m = s m) \<Longrightarrow> for_loop lo hi body s m = s m"
proof (induction lo hi body s rule: for_loop.induct)
  case (1 i n body s)
  show ?case
  proof (cases "i < n")
    case True
    have "for_loop (i + 1) n body (body i s) m = body i s m"
      using True "1.prems" by (intro "1.IH") auto
    then show ?thesis using True "1.prems" by simp
  next
    case False
    then show ?thesis by simp
  qed
qed

lemma for_loop_at:
  assumes "lo \<le> i0" "i0 < hi"
    and "\<And>i s. lo \<le> i \<Longrightarrow> i < hi \<Longrightarrow> i \<noteq> i0 \<Longrightarrow> body i s m = s m"
    and "\<And>s. body i0 s m = g (s m)"
  shows "for_loop lo hi body s m = g (s m)"
  using assms
proof (induction lo hi body s rule: for_loop.induct)
  case (1 i n body s)
  have lt: "i < n" using "1.prems" by simp
  show ?case
  proof (cases "i = i0")
    case True
    have "for_loop (i + 1) n body (body i s) m = body i s m"
      using "1.prems" True by (intro for_loop_other) auto
    then show ?thesis using lt True "1.prems"(4) by simp
  next
    case False
    have "for_loop (i + 1) n body (body i s) m = g (body i s m)"
      using lt False "1.prems" by (intro "1.IH") auto
    then show ?thesis using lt False "1.prems" by simp
  qed
qed


lemma for_loop_prod:
  "for_loop lo hi (\<lambda>i (a, b). (f i a, g i b)) (a, b) = (for_loop lo hi f a, for_loop lo hi g b)"
proof (induction lo hi f a arbitrary: b rule: for_loop.induct)
  case (1 i n f a)
  show ?case
  proof (cases "i < n")
    case True
    then show ?thesis using "1.IH" [OF True] by simp
  next
    case False
    then show ?thesis by simp
  qed
qed

section \<open>Single and double precision\<close>

text \<open>
  \<open>flt p emin x\<close> is the real \<open>x\<close> rounded to the nearest floating-point number with \<open>p\<close>
  significant bits whose unit in the last place is at least \<open>2 powi emin\<close>, ties going to
  the even significand (the IEEE 754 default).  \<open>f32\<close> rounds to \<open>float\<close> (binary32) and
  \<open>f64\<close> to \<open>double\<close> (binary64).  The exponent is unbounded above: overflow to infinity
  and NaN are outside the model, and the theorems that rely on rounding bound the
  magnitudes they round.
\<close>

definition round_even :: "real \<Rightarrow> int" where
  "round_even y =
     (let f = \<lfloor>y\<rfloor>
      in if y - of_int f < 1 / 2 then f
         else if 1 / 2 < y - of_int f then f + 1
         else if even f then f else f + 1)"

definition fexp :: "nat \<Rightarrow> int \<Rightarrow> real \<Rightarrow> int" where
  "fexp p emin x = max (\<lfloor>log 2 \<bar>x\<bar>\<rfloor> - int p + 1) emin"

definition flt :: "nat \<Rightarrow> int \<Rightarrow> real \<Rightarrow> real" where
  "flt p emin x =
     (if x = 0 then 0
      else of_int (round_even (x / 2 powi fexp p emin x)) * 2 powi fexp p emin x)"

definition f32 :: "real \<Rightarrow> real" where
  "f32 = flt 24 (- 149)"

definition f64 :: "real \<Rightarrow> real" where
  "f64 = flt 53 (- 1074)"

lemma floor_log2:
  assumes "2 powi k \<le> x" "x < 2 powi (k + 1)"
  shows "\<lfloor>log 2 x\<rfloor> = k"
proof -
  have "0 < (2::real) powi k" by simp
  then have pos: "0 < x" using assms(1) by linarith
  have a: "(2::real) powr of_int n = 2 powi n" for n :: int
    by (rule powr_real_of_int') simp_all
  have b: "(2::real) powr (of_int k + 1) = 2 powi (k + 1)"
    using a [of "k + 1"] by simp
  have "2 powr (of_int k) \<le> x \<and> x < 2 powr (of_int k + 1)"
    unfolding a b using assms by simp
  then show ?thesis using floor_log_eq_powr_iff [OF pos, of 2 k] by simp
qed

lemma flt_eval:
  assumes "2 powi k \<le> \<bar>x\<bar>" "\<bar>x\<bar> < 2 powi (k + 1)" "emin \<le> k - int p + 1"
  shows "flt p emin x = of_int (round_even (x / 2 powi (k - int p + 1))) * 2 powi (k - int p + 1)"
proof -
  have "0 < (2::real) powi k" by simp
  then have "x \<noteq> 0" using assms(1) by linarith
  moreover have "fexp p emin x = k - int p + 1"
    unfolding fexp_def floor_log2 [OF assms(1,2)] using assms(3) by simp
  ultimately show ?thesis by (simp add: flt_def)
qed

lemma round_even_cases: "round_even y = \<lfloor>y\<rfloor> \<or> round_even y = \<lfloor>y\<rfloor> + 1"
  by (simp add: round_even_def Let_def)

lemma round_even_of_int [simp]: "round_even (of_int n) = n"
  by (simp add: round_even_def Let_def)

lemma round_even_mono:
  assumes "a \<le> b"
  shows "round_even a \<le> round_even b"
proof (cases "\<lfloor>a\<rfloor> = \<lfloor>b\<rfloor>")
  case False
  have "\<lfloor>a\<rfloor> \<le> \<lfloor>b\<rfloor>" using assms by (rule floor_mono)
  then have "\<lfloor>a\<rfloor> + 1 \<le> \<lfloor>b\<rfloor>" using False by simp
  then show ?thesis using round_even_cases [of a] round_even_cases [of b] by linarith
next
  case True
  have "a - of_int \<lfloor>a\<rfloor> \<le> b - of_int \<lfloor>b\<rfloor>" using assms True by simp
  then show ?thesis unfolding round_even_def Let_def True by auto
qed

lemma round_even_ge: "of_int n \<le> y \<Longrightarrow> n \<le> round_even y"
  using round_even_mono [of "of_int n" y] by simp

lemma round_even_le: "y \<le> of_int n \<Longrightarrow> round_even y \<le> n"
  using round_even_mono [of y "of_int n"] by simp

lemma round_even_minus: "round_even (- y) = - round_even y"
proof (cases "y = of_int \<lfloor>y\<rfloor>")
  case True
  then obtain n where "y = of_int n" by blast
  then have "- y = of_int (- n)" by simp
  then show ?thesis unfolding \<open>y = of_int n\<close> by (simp only: round_even_of_int)
next
  case False
  have fl: "\<lfloor>- y\<rfloor> = - \<lfloor>y\<rfloor> - 1"
  proof -
    have "of_int \<lfloor>y\<rfloor> \<le> y" by (rule of_int_floor_le)
    with False have "of_int \<lfloor>y\<rfloor> < y" by linarith
    moreover have "y < of_int \<lfloor>y\<rfloor> + 1" by linarith
    ultimately have "- of_int \<lfloor>y\<rfloor> - 1 \<le> - y" "- y < - of_int \<lfloor>y\<rfloor> - 1 + 1" by linarith+
    then have "of_int (- \<lfloor>y\<rfloor> - 1) \<le> - y" "- y < of_int (- \<lfloor>y\<rfloor> - 1) + 1" by simp_all
    then show ?thesis by (rule floor_unique)
  qed
  define f where "f = \<lfloor>y\<rfloor>"
  define r where "r = y - of_int f"
  have y: "y = of_int f + r" by (simp add: r_def)
  have "of_int \<lfloor>y\<rfloor> \<le> y" by (rule of_int_floor_le)
  with False have "of_int \<lfloor>y\<rfloor> < y" by linarith
  then have r: "0 < r" "r < 1" unfolding r_def f_def by linarith+
  have e: "even (- f - 1) \<longleftrightarrow> odd f" by simp
  have "round_even (- y) = (if 1 - r < 1 / 2 then - f - 1 else if 1 / 2 < 1 - r then - f
           else if odd f then - f - 1 else - f)"
    unfolding round_even_def Let_def fl f_def [symmetric] e
    by (simp add: y)
  moreover have "round_even y = (if r < 1 / 2 then f else if 1 / 2 < r then f + 1
           else if even f then f else f + 1)"
    unfolding round_even_def Let_def f_def [symmetric] by (simp add: y)
  ultimately show ?thesis using r by auto
qed

lemma flt_zero [simp]: "flt p emin 0 = 0"
  by (simp add: flt_def)

lemma fexp_minus [simp]: "fexp p emin (- x) = fexp p emin x"
  by (simp add: fexp_def)

lemma flt_minus: "flt p emin (- x) = - flt p emin x"
  by (simp add: flt_def round_even_minus)

lemma flt_nonneg:
  assumes "0 \<le> x"
  shows "0 \<le> flt p emin x"
proof (cases "x = 0")
  case False
  have "0 \<le> x / 2 powi fexp p emin x" using assms by simp
  then have "of_int 0 \<le> x / 2 powi fexp p emin x" by simp
  then have "0 \<le> round_even (x / 2 powi fexp p emin x)" by (rule round_even_ge)
  then show ?thesis using False by (simp add: flt_def)
qed simp

lemma log2_bounds:
  assumes "0 < x"
  shows "2 powi \<lfloor>log 2 x\<rfloor> \<le> x" and "x < 2 powi (\<lfloor>log 2 x\<rfloor> + 1)"
proof -
  have a: "(2::real) powr of_int n = 2 powi n" for n :: int
    by (rule powr_real_of_int') simp_all
  have b: "(2::real) powr (of_int \<lfloor>log 2 x\<rfloor> + 1) = 2 powi (\<lfloor>log 2 x\<rfloor> + 1)"
    using a [of "\<lfloor>log 2 x\<rfloor> + 1"] by simp
  have "2 powr (of_int \<lfloor>log 2 x\<rfloor>) \<le> x \<and> x < 2 powr (of_int \<lfloor>log 2 x\<rfloor> + 1)"
    using floor_log_eq_powr_iff [OF assms, of 2 "\<lfloor>log 2 x\<rfloor>"] by simp
  then show "2 powi \<lfloor>log 2 x\<rfloor> \<le> x" and "x < 2 powi (\<lfloor>log 2 x\<rfloor> + 1)"
    unfolding a b by simp_all
qed

lemma fexp_mono:
  assumes "0 < x" "x \<le> y"
  shows "fexp p emin x \<le> fexp p emin y"
proof -
  have "log 2 x \<le> log 2 y" using assms by simp
  then have "\<lfloor>log 2 x\<rfloor> \<le> \<lfloor>log 2 y\<rfloor>" by (rule floor_mono)
  then show ?thesis using assms by (simp add: fexp_def)
qed

lemma pow2_of_int: "0 \<le> n \<Longrightarrow> (2::real) powi n = of_int (2 ^ nat n)"
  by (simp add: power_int_nonneg_exp)

lemma flt_mono_pos:
  assumes p: "1 \<le> p" and x: "0 < x" "x \<le> y"
  shows "flt p emin x \<le> flt p emin y"
proof -
  define ex where "ex = fexp p emin x"
  define ey where "ey = fexp p emin y"
  have y0: "0 < y" using x by linarith
  have le: "ex \<le> ey" unfolding ex_def ey_def by (rule fexp_mono [OF x])
  have fx: "flt p emin x = of_int (round_even (x / 2 powi ex)) * 2 powi ex"
    using x(1) by (simp add: flt_def ex_def)
  have fy: "flt p emin y = of_int (round_even (y / 2 powi ey)) * 2 powi ey"
    using y0 by (simp add: flt_def ey_def)
  have ux: "0 < (2::real) powi ex" and uy: "0 < (2::real) powi ey" by simp_all
  show ?thesis
  proof (cases "ex = ey")
    case True
    have "x / 2 powi ey \<le> y / 2 powi ey" using x(2) uy by (simp add: divide_right_mono)
    then have "round_even (x / 2 powi ey) \<le> round_even (y / 2 powi ey)" by (rule round_even_mono)
    then have "real_of_int (round_even (x / 2 powi ey)) * 2 powi ey
             \<le> real_of_int (round_even (y / 2 powi ey)) * 2 powi ey"
      using uy by (intro mult_right_mono) auto
    then show ?thesis unfolding fx fy True .
  next
    case False
    then have lt: "ex < ey" using le by simp
    define k where "k = ey + int p - 1"
    have "emin \<le> ex" unfolding ex_def fexp_def by simp
    then have "emin < ey" using lt by simp
    then have ky: "\<lfloor>log 2 y\<rfloor> = k" unfolding k_def ey_def fexp_def using y0 by (simp add: max_def split: if_splits)
    have "\<lfloor>log 2 x\<rfloor> - int p + 1 \<le> ex" unfolding ex_def fexp_def using x(1) by simp
    then have kx: "\<lfloor>log 2 x\<rfloor> + 1 \<le> k" unfolding k_def using lt by simp
    have By: "2 powi k \<le> y" using log2_bounds(1) [OF y0] unfolding ky .
    have "x < 2 powi (\<lfloor>log 2 x\<rfloor> + 1)" by (rule log2_bounds(2) [OF x(1)])
    also have "\<dots> \<le> 2 powi k" using kx by (intro power_int_increasing) auto
    finally have Bx: "x \<le> 2 powi k" by simp
    have kex: "0 \<le> k - ex" unfolding k_def using lt p by simp
    have key: "0 \<le> k - ey" unfolding k_def using p by simp
    have sx: "(2::real) powi k = 2 powi (k - ex) * 2 powi ex"
      by (simp add: power_int_add [symmetric])
    have sy: "(2::real) powi k = 2 powi (k - ey) * 2 powi ey"
      by (simp add: power_int_add [symmetric])
    have "x / 2 powi ex \<le> 2 powi (k - ex)"
      using Bx ux unfolding sx by (simp add: pos_divide_le_eq)
    then have "x / 2 powi ex \<le> of_int (2 ^ nat (k - ex))" unfolding pow2_of_int [OF kex] .
    then have "round_even (x / 2 powi ex) \<le> 2 ^ nat (k - ex)" by (rule round_even_le)
    then have "real_of_int (round_even (x / 2 powi ex)) \<le> of_int (2 ^ nat (k - ex))"
      by (simp only: of_int_le_iff)
    then have "real_of_int (round_even (x / 2 powi ex)) \<le> 2 powi (k - ex)"
      unfolding pow2_of_int [OF kex] .
    then have "real_of_int (round_even (x / 2 powi ex)) * 2 powi ex \<le> 2 powi (k - ex) * 2 powi ex"
      using ux by (intro mult_right_mono) auto
    then have X: "flt p emin x \<le> 2 powi k" unfolding fx sx .
    have "2 powi (k - ey) \<le> y / 2 powi ey"
      using By uy unfolding sy by (simp add: pos_le_divide_eq)
    then have "of_int (2 ^ nat (k - ey)) \<le> y / 2 powi ey" unfolding pow2_of_int [OF key] .
    then have "2 ^ nat (k - ey) \<le> round_even (y / 2 powi ey)" by (rule round_even_ge)
    then have "of_int (2 ^ nat (k - ey)) \<le> real_of_int (round_even (y / 2 powi ey))"
      by (simp only: of_int_le_iff)
    then have "2 powi (k - ey) \<le> real_of_int (round_even (y / 2 powi ey))"
      unfolding pow2_of_int [OF key] .
    then have "2 powi (k - ey) * 2 powi ey \<le> real_of_int (round_even (y / 2 powi ey)) * 2 powi ey"
      using uy by (intro mult_right_mono) auto
    then have Y: "2 powi k \<le> flt p emin y" unfolding fy sy .
    show ?thesis using X Y by linarith
  qed
qed

lemma flt_mono:
  assumes p: "1 \<le> p" and xy: "x \<le> y"
  shows "flt p emin x \<le> flt p emin y"
proof -
  consider (pos) "0 < x" | (mid) "x \<le> 0" "0 \<le> y" | (neg) "y < 0" using xy by linarith
  then show ?thesis
  proof cases
    case pos
    then show ?thesis using p xy by (intro flt_mono_pos)
  next
    case mid
    have "0 \<le> flt p emin (- x)" using mid(1) by (intro flt_nonneg) simp
    then have "flt p emin x \<le> 0" by (simp add: flt_minus)
    moreover have "0 \<le> flt p emin y" using mid(2) by (rule flt_nonneg)
    ultimately show ?thesis by linarith
  next
    case neg
    have "flt p emin (- y) \<le> flt p emin (- x)"
      using p neg xy by (intro flt_mono_pos) auto
    then show ?thesis by (simp add: flt_minus)
  qed
qed

lemma f32_mono: "x \<le> y \<Longrightarrow> f32 x \<le> f32 y"
  unfolding f32_def by (rule flt_mono) simp

lemma f32_zero [simp]: "f32 0 = 0"
  by (simp add: f32_def)

lemma f64_zero [simp]: "f64 0 = 0"
  by (simp add: f64_def)

lemma f32_one [simp]: "f32 1 = 1"
proof -
  have "f32 1 = of_int (round_even (1 / 2 powi (0 - int 24 + 1))) * 2 powi (0 - int 24 + 1)"
    unfolding f32_def by (rule flt_eval) simp_all
  also have "\<dots> = 1"
  proof -
    have "(1::real) / 2 powi (0 - int 24 + 1) = of_int (2 ^ 23)" by (simp add: power_int_minus)
    then show ?thesis by (simp only: round_even_of_int) (simp add: power_int_minus)
  qed
  finally show ?thesis .
qed

lemma f32_unit_interval: "0 \<le> z \<Longrightarrow> z \<le> 1 \<Longrightarrow> 0 \<le> f32 z \<and> f32 z \<le> 1"
  using f32_mono [of 0 z] f32_mono [of z 1] by simp

lemma flt_exact:
  assumes x: "x = of_int m * 2 powi e" and m: "\<bar>m\<bar> < 2 ^ p" and e: "emin \<le> e"
  shows "flt p emin x = x"
proof (cases "m = 0")
  case True
  then show ?thesis using x by simp
next
  case False
  define ex where "ex = fexp p emin x"
  have x0: "x \<noteq> 0" using False x by simp
  then have ax: "0 < \<bar>x\<bar>" by simp
  have "\<bar>x\<bar> = of_int \<bar>m\<bar> * 2 powi e" unfolding x by (simp add: abs_mult)
  also have "\<dots> < of_int (2 ^ p) * 2 powi e"
    using m by (intro mult_strict_right_mono) (simp_all only: of_int_less_iff zero_less_power_int zero_less_numeral)
  also have "\<dots> = 2 powi (int p + e)" by (simp add: power_int_add)
  finally have up: "\<bar>x\<bar> < 2 powi (int p + e)" .
  have "\<lfloor>log 2 \<bar>x\<bar>\<rfloor> < int p + e"
  proof (rule ccontr)
    assume "\<not> \<lfloor>log 2 \<bar>x\<bar>\<rfloor> < int p + e"
    then have "(2::real) powi (int p + e) \<le> 2 powi \<lfloor>log 2 \<bar>x\<bar>\<rfloor>"
      by (intro power_int_increasing) auto
    also have "\<dots> \<le> \<bar>x\<bar>" by (rule log2_bounds(1) [OF ax])
    finally show False using up by simp
  qed
  then have le: "ex \<le> e" unfolding ex_def fexp_def using e by simp
  then have d: "0 \<le> e - ex" by simp
  have "(2::real) powi e = 2 powi (e - ex) * 2 powi ex" by (simp add: power_int_add [symmetric])
  then have xs: "x = of_int m * 2 powi (e - ex) * 2 powi ex" unfolding x by simp
  have "x / 2 powi ex = of_int m * 2 powi (e - ex)"
    by (subst xs) simp
  also have "\<dots> = of_int (m * 2 ^ nat (e - ex))" by (simp add: pow2_of_int [OF d])
  finally have q: "x / 2 powi ex = of_int (m * 2 ^ nat (e - ex))" .
  have "flt p emin x = of_int (round_even (x / 2 powi ex)) * 2 powi ex"
    using x0 by (simp add: flt_def ex_def)
  also have "\<dots> = of_int (m * 2 ^ nat (e - ex)) * 2 powi ex"
    unfolding q by (simp only: round_even_of_int)
  also have "\<dots> = x / 2 powi ex * 2 powi ex" unfolding q ..
  also have "\<dots> = x" by simp
  finally show ?thesis .
qed

lemma f32_exact: "x = of_int m * 2 powi e \<Longrightarrow> \<bar>m\<bar> < 2 ^ 24 \<Longrightarrow> - 149 \<le> e \<Longrightarrow> f32 x = x"
  unfolding f32_def by (rule flt_exact)

lemma f32_dyadic: "\<bar>m\<bar> < 2 ^ 24 \<Longrightarrow> n \<le> 149 \<Longrightarrow> f32 (of_int m / 2 ^ n) = of_int m / 2 ^ n"
  by (rule f32_exact [where m = m and e = "- int n"]) (simp_all add: power_int_minus field_simps)

lemma f32_of_int: "\<bar>m\<bar> < 2 ^ 24 \<Longrightarrow> f32 (of_int m) = of_int m"
  by (rule f32_exact [where e = 0]) simp_all

lemma f32_eval:
  assumes "2 powi k \<le> \<bar>x\<bar>" "\<bar>x\<bar> < 2 powi (k + 1)" "- 126 \<le> k"
  shows "f32 x = of_int (round_even (x / 2 powi (k - 23))) * 2 powi (k - 23)"
  using flt_eval [OF assms(1,2), of "- 149" 24] assms(3) by (simp add: f32_def)

lemma f32_numeral [simp]: "numeral n < (2::int) ^ 24 \<Longrightarrow> f32 (numeral n) = numeral n"
  using f32_of_int [of "numeral n"] by simp

lemma f32_minus: "f32 (- x) = - f32 x"
  by (simp add: f32_def flt_minus)

text \<open>
  The \<open>float\<close> operations: each rounds its exact result (no contraction into fused
  multiply-add).  \<open>fsqrt\<close> is \<open>sqrtf\<close>.
\<close>

definition fadd :: "real \<Rightarrow> real \<Rightarrow> real" where
  "fadd a b = f32 (a + b)"

definition fsub :: "real \<Rightarrow> real \<Rightarrow> real" where
  "fsub a b = f32 (a - b)"

definition fmul :: "real \<Rightarrow> real \<Rightarrow> real" where
  "fmul a b = f32 (a * b)"

definition fdiv :: "real \<Rightarrow> real \<Rightarrow> real" where
  "fdiv a b = f32 (a / b)"

definition fsqrt :: "real \<Rightarrow> real" where
  "fsqrt a = f32 (sqrt a)"

lemma fmul_zero [simp]: "fmul 0 a = 0" "fmul a 0 = 0"
  by (simp_all add: fmul_def)

lemma fadd_zero [simp]: "fadd 0 0 = 0" "fsub 0 0 = 0"
  by (simp_all add: fadd_def fsub_def)

lemma fadd_zero_right: "f32 a = a \<Longrightarrow> fadd a 0 = a"
  by (simp add: fadd_def)

lemma fsub_zero_right: "f32 a = a \<Longrightarrow> fsub a 0 = a"
  by (simp add: fsub_def)

section \<open>Field data model (\<open>zpic.h\<close>, \<open>emf.h\<close>, \<open>current.h\<close>)\<close>

text \<open>
  \<open>t_vfld\<close> is the C struct \<open>{ float x, y, z; }\<close>; its fields are called \<open>vx vy vz\<close>
  here.  A grid is addressed as in the C code, by the flat index \<open>i + j * nrow\<close> relative
  to cell \<open>(0,0)\<close>, so guard cells have negative indices.
\<close>

record t_vfld =
  vx :: real
  vy :: real
  vz :: real

type_synonym grid = "int \<Rightarrow> t_vfld"

definition zero_fld :: t_vfld where
  "zero_fld = \<lparr>vx = 0, vy = 0, vz = 0\<rparr>"

text \<open>
  \<open>t_emf\<close>: the fields \<open>E\<close> and \<open>B\<close> are the arrays as seen through the pointers
  \<open>emf->E\<close>, \<open>emf->B\<close> (cell \<open>(0,0)\<close> at index 0).  The pointers \<open>E_buf\<close>, \<open>B_buf\<close> address
  the same memory from its first guard cell: \<open>E = E_buf + gc[0][0] + gc[1][0] * nrow\<close>
  (\<open>emf_new\<close>).
\<close>

record t_emf =
  E :: grid
  B :: grid
  nx0 :: int
  nx1 :: int
  nrow :: int
  gc00 :: int
  gc01 :: int
  gc10 :: int
  gc11 :: int
  dx0 :: real
  dx1 :: real
  dt :: real
  iter :: int
  moving_window :: bool
  n_move :: int

record t_current =
  J :: grid
  nrow_j :: int

definition buf_offset :: "t_emf \<Rightarrow> int" where
  "buf_offset emf = gc00 emf + gc10 emf * nrow emf"

definition to_buf :: "int \<Rightarrow> grid \<Rightarrow> grid" where
  \<comment> \<open>the array behind pointer \<open>p\<close>, seen through \<open>p - off\<close>\<close>
  "to_buf off F = (\<lambda>b. F (b - off))"

definition of_buf :: "int \<Rightarrow> grid \<Rightarrow> grid" where
  \<comment> \<open>the array behind pointer \<open>q\<close>, seen through \<open>q + off\<close>\<close>
  "of_buf off F = (\<lambda>k. F (k + off))"

definition E_buf :: "t_emf \<Rightarrow> grid" where
  "E_buf emf = to_buf (buf_offset emf) (E emf)"

definition B_buf :: "t_emf \<Rightarrow> grid" where
  "B_buf emf = to_buf (buf_offset emf) (B emf)"

section \<open>Field solver of \<open>emf.c\<close> (OmpSs-2 + OpenACC version)\<close>

definition yee_b_openacc :: "grid \<Rightarrow> grid \<Rightarrow> real \<Rightarrow> real \<Rightarrow> int \<Rightarrow> int \<Rightarrow> int \<Rightarrow> grid" where
  "yee_b_openacc B0 E0 dt_dx dt_dy nrow' nx0' nx1' =
     for_loop (- 1) (nx1' + 1) (\<lambda>j.
       for_loop (- 1) (nx0' + 1) (\<lambda>i B1.
         let B2 = B1(i + j * nrow' := (B1 (i + j * nrow'))\<lparr>vx := vx (B1 (i + j * nrow'))
                    + (- dt_dy * (vz (E0 (i + (j + 1) * nrow')) - vz (E0 (i + j * nrow'))))\<rparr>);
             B3 = B2(i + j * nrow' := (B2 (i + j * nrow'))\<lparr>vy := vy (B2 (i + j * nrow'))
                    + (dt_dx * (vz (E0 ((i + 1) + j * nrow')) - vz (E0 (i + j * nrow'))))\<rparr>)
         in B3(i + j * nrow' := (B3 (i + j * nrow'))\<lparr>vz := vz (B3 (i + j * nrow'))
                    + (- dt_dx * (vy (E0 ((i + 1) + j * nrow')) - vy (E0 (i + j * nrow')))
                       + dt_dy * (vx (E0 (i + (j + 1) * nrow')) - vx (E0 (i + j * nrow'))))\<rparr>))) B0"

definition yee_e_cell :: "grid \<Rightarrow> grid \<Rightarrow> real \<Rightarrow> real \<Rightarrow> real \<Rightarrow> int \<Rightarrow> int
    \<Rightarrow> int \<Rightarrow> int \<Rightarrow> grid \<Rightarrow> grid" where
  \<comment> \<open>the three statements of the loop body of \<open>yee_e_openacc\<close>, at cell \<open>(i, j)\<close>\<close>
  "yee_e_cell B0 J0 dt_dx dt_dy dt' nrow_e nrow_j' i j E1 =
     (let E2 = E1(i + j * nrow_e := (E1 (i + j * nrow_e))\<lparr>vx := vx (E1 (i + j * nrow_e))
                 + ((dt_dy * (vz (B0 (i + j * nrow_e)) - vz (B0 (i + (j - 1) * nrow_e))))
                    - dt' * vx (J0 (i + j * nrow_j')))\<rparr>);
          E3 = E2(i + j * nrow_e := (E2 (i + j * nrow_e))\<lparr>vy := vy (E2 (i + j * nrow_e))
                 + ((- dt_dx * (vz (B0 (i + j * nrow_e)) - vz (B0 ((i - 1) + j * nrow_e))))
                    - dt' * vy (J0 (i + j * nrow_j')))\<rparr>)
      in E3(i + j * nrow_e := (E3 (i + j * nrow_e))\<lparr>vz := vz (E3 (i + j * nrow_e))
                 + ((dt_dx * (vy (B0 (i + j * nrow_e)) - vy (B0 ((i - 1) + j * nrow_e)))
                     - dt_dy * (vx (B0 (i + j * nrow_e)) - vx (B0 (i + (j - 1) * nrow_e))))
                    - dt' * vz (J0 (i + j * nrow_j')))\<rparr>))"

definition yee_e_openacc :: "grid \<Rightarrow> grid \<Rightarrow> grid \<Rightarrow> real \<Rightarrow> real \<Rightarrow> real \<Rightarrow> int \<Rightarrow> int
    \<Rightarrow> int \<Rightarrow> int \<Rightarrow> grid" where
  "yee_e_openacc B0 E0 J0 dt_dx dt_dy dt' nrow_e nrow_j' nx0' nx1' =
     for_loop 0 (nx1' + 1 + 1) (\<lambda>j.
       for_loop 0 (nx0' + 1) (\<lambda>i. yee_e_cell B0 J0 dt_dx dt_dy dt' nrow_e nrow_j' i j)) E0"


text \<open>
  \<open>copy_fld F dst src\<close> is the statement triple
  \<open>F[dst].x = F[src].x; F[dst].y = F[src].y; F[dst].z = F[src].z;\<close>.
\<close>

definition copy_fld :: "grid \<Rightarrow> int \<Rightarrow> int \<Rightarrow> grid" where
  "copy_fld F dst src =
     (let F1 = F(dst := (F dst)\<lparr>vx := vx (F src)\<rparr>);
          F2 = F1(dst := (F1 dst)\<lparr>vy := vy (F1 src)\<rparr>)
      in F2(dst := (F2 dst)\<lparr>vz := vz (F2 src)\<rparr>))"

text \<open>\<open>emf_update_gc_x\<close>: guard cells in x, CPU version.\<close>

definition emf_update_gc_x :: "t_emf \<Rightarrow> t_emf" where
  "emf_update_gc_x emf =
     (if \<not> moving_window emf then
        (let (E', B') =
           for_loop (- gc10 emf) (nx1 emf + gc11 emf) (\<lambda>j (E1, B1).
             let (E2, B2) = for_loop (- gc00 emf) 0 (\<lambda>i (E3, B3).
                   (copy_fld E3 (i + j * nrow emf) (nx0 emf + i + j * nrow emf),
                    copy_fld B3 (i + j * nrow emf) (nx0 emf + i + j * nrow emf))) (E1, B1)
             in for_loop 0 (gc01 emf) (\<lambda>i (E3, B3).
                   (copy_fld E3 (nx0 emf + i + j * nrow emf) (i + j * nrow emf),
                    copy_fld B3 (nx0 emf + i + j * nrow emf) (i + j * nrow emf))) (E2, B2))
             (E emf, B emf)
         in emf\<lparr>E := E', B := B'\<rparr>)
      else emf)"

text \<open>\<open>emf_update_gc_x_openacc\<close>: guard cells in x, accelerator version.\<close>

definition emf_update_gc_x_openacc :: "grid \<Rightarrow> grid \<Rightarrow> int \<Rightarrow> int \<Rightarrow> int
    \<Rightarrow> int \<Rightarrow> int \<Rightarrow> int \<Rightarrow> int \<Rightarrow> grid \<times> grid" where
  "emf_update_gc_x_openacc E0 B0 nrow' nx0' nx1' gc00' gc01' gc10' gc11' =
     for_loop (- gc10') (nx1' + gc11') (\<lambda>j.
       for_loop (- gc00') gc01' (\<lambda>i (E1, B1).
         if i < 0 then
           (copy_fld E1 (i + j * nrow') (nx0' + i + j * nrow'),
            copy_fld B1 (i + j * nrow') (nx0' + i + j * nrow'))
         else
           (copy_fld E1 (nx0' + i + j * nrow') (i + j * nrow'),
            copy_fld B1 (nx0' + i + j * nrow') (i + j * nrow')))) (E0, B0)"

text \<open>
  \<open>emf_move_window_openacc\<close>.  The macro \<open>LOCAL_BUFFER_SIZE\<close> is not defined in the
  sources at hand and is the parameter \<open>lbs\<close>.  The chunk loop
  \<open>for (begin_idx = 0; begin_idx < nrow; begin_idx += LOCAL_BUFFER_SIZE)\<close> is \<open>for_step\<close>,
  which stops at once for a stride that is not positive (the C loop would not end).  The
  scratch arrays \<open>B_temp\<close> and \<open>E_temp\<close> start uninitialised.
\<close>

function for_step :: "int \<Rightarrow> int \<Rightarrow> int \<Rightarrow> (int \<Rightarrow> 's \<Rightarrow> 's) \<Rightarrow> 's \<Rightarrow> 's" where
  "for_step i n d body s =
     (if i < n \<and> 0 < d then for_step (i + d) n d body (body i s) else s)"
  by pat_completeness auto
termination
  by (relation "measure (\<lambda>(i, n, d, body, s). nat (n - i))") auto

declare for_step.simps [simp del]

lemma for_step_step [simp]:
  "i < n \<Longrightarrow> 0 < d \<Longrightarrow> for_step i n d body s = for_step (i + d) n d body (body i s)"
  by (subst for_step.simps) simp

lemma for_step_done [simp]: "\<not> i < n \<Longrightarrow> for_step i n d body s = s"
  by (subst for_step.simps) simp

definition move_window_chunk :: "int \<Rightarrow> int \<Rightarrow> int \<Rightarrow> int \<Rightarrow> int \<Rightarrow> int
    \<Rightarrow> (grid \<times> grid) \<times> (grid \<times> grid) \<Rightarrow> (grid \<times> grid) \<times> (grid \<times> grid)" where
  \<comment> \<open>the body of the chunk loop: fill the scratch arrays, then write them back\<close>
  "move_window_chunk lbs nrow' gc00' nx0' j begin_idx st =
     (let ((E1, B1), temps) = st;
          (B_temp, E_temp) = for_loop 0 lbs (\<lambda>i (Bt, Et).
             if begin_idx + i < gc00' + nx0' - 1 then
               (Bt(i := B1 (begin_idx + 1 + i + j * nrow')),
                Et(i := E1 (begin_idx + 1 + i + j * nrow')))
             else (Bt(i := zero_fld), Et(i := zero_fld))) temps;
          EB = for_loop 0 lbs (\<lambda>i (E2, B2).
             if begin_idx + i < nrow' then
               (E2(begin_idx + i + j * nrow' := E_temp i),
                B2(begin_idx + i + j * nrow' := B_temp i))
             else (E2, B2)) (E1, B1)
      in (EB, (B_temp, E_temp)))"

definition emf_move_window_openacc :: "int \<Rightarrow> grid \<Rightarrow> grid \<Rightarrow> int \<Rightarrow> int \<Rightarrow> int
    \<Rightarrow> int \<Rightarrow> int \<Rightarrow> int \<Rightarrow> int \<Rightarrow> grid \<times> grid" where
  "emf_move_window_openacc lbs Eb Bb nrow' gc00' gc01' gc10' gc11' nx0' nx1' =
     for_loop 0 (gc10' + nx1' + gc11') (\<lambda>j EB.
       fst (for_step 0 nrow' lbs (move_window_chunk lbs nrow' gc00' nx0' j)
              (EB, ((\<lambda>i. undefined), (\<lambda>i. undefined))))) (Eb, Bb)"

text \<open>\<open>emf_advance_openacc\<close>: one field step of a region on the accelerator.\<close>

definition emf_advance_openacc :: "int \<Rightarrow> t_emf \<Rightarrow> t_current \<Rightarrow> t_emf" where
  "emf_advance_openacc lbs emf0 current =
     (let dt' = dt emf0;
          dt_dx = dt' / dx0 emf0;
          dt_dy = dt' / dx1 emf0;
          emf1 = emf0\<lparr>iter := iter emf0 + 1\<rparr>;
          shift = (f32 (f32 (real_of_int (iter emf1)) * dt')
                     > f32 (dx0 emf1 * f32 (real_of_int (n_move emf1 + 1))));
          emf2 = emf1\<lparr>B := yee_b_openacc (B emf1) (E emf1) (dt_dx / 2) (dt_dy / 2)
                               (nrow emf1) (nx0 emf1) (nx1 emf1)\<rparr>;
          emf3 = emf2\<lparr>E := yee_e_openacc (B emf2) (E emf2) (J current) dt_dx dt_dy dt'
                               (nrow emf2) (nrow_j current) (nx0 emf2) (nx1 emf2)\<rparr>;
          emf4 = emf3\<lparr>B := yee_b_openacc (B emf3) (E emf3) (dt_dx / 2) (dt_dy / 2)
                               (nrow emf3) (nx0 emf3) (nx1 emf3)\<rparr>
      in if moving_window emf4 then
           (if shift then
              (let emf5 = emf4\<lparr>n_move := n_move emf4 + 1\<rparr>;
                   (Eb, Bb) = emf_move_window_openacc lbs (E_buf emf5) (B_buf emf5) (nrow emf5)
                                (gc00 emf5) (gc01 emf5) (gc10 emf5) (gc11 emf5)
                                (nx0 emf5) (nx1 emf5)
               in emf5\<lparr>E := of_buf (buf_offset emf5) Eb, B := of_buf (buf_offset emf5) Bb\<rparr>)
            else emf4)
         else
           (let (E', B') = emf_update_gc_x_openacc (E emf4) (B emf4) (nrow emf4)
                             (nx0 emf4) (nx1 emf4)
                             (gc00 emf4) (gc01 emf4) (gc10 emf4) (gc11 emf4)
            in emf4\<lparr>E := E', B := B'\<rparr>))"

section \<open>Field solver of the second \<open>emf.c\<close> (functions taking \<open>t_emf *\<close>)\<close>

text \<open>
  The sources hold a second field solver whose functions carry the same names but take
  the \<open>t_emf\<close> structure; they are suffixed with \<open>2\<close> here.  Its E update runs the
  column loop up to \<open>nx[0] + 1\<close>.
\<close>

definition yee_b_openacc2 :: "t_emf \<Rightarrow> real \<Rightarrow> t_emf" where
  "yee_b_openacc2 emf dt' =
     emf\<lparr>B := yee_b_openacc (B emf) (E emf) (dt' / dx0 emf) (dt' / dx1 emf)
                 (nrow emf) (nx0 emf) (nx1 emf)\<rparr>"

definition yee_e_openacc2 :: "t_emf \<Rightarrow> t_current \<Rightarrow> real \<Rightarrow> t_emf" where
  "yee_e_openacc2 emf current dt' =
     emf\<lparr>E := for_loop 0 (nx1 emf + 1 + 1) (\<lambda>j.
                 for_loop 0 (nx0 emf + 1 + 1) (\<lambda>i.
                   yee_e_cell (B emf) (J current) (dt' / dx0 emf) (dt' / dx1 emf) dt'
                     (nrow emf) (nrow_j current) i j)) (E emf)\<rparr>"

text \<open>
  \<open>emf_update_gc_openacc\<close> of the second solver (one region, periodic in x and y).  Its
  two loop nests, marked \<open>// x\<close> and \<open>// y\<close> in the source, are \<open>emf_update_gc_openacc_x\<close>
  (skipped when the window moves) and \<open>emf_update_gc_openacc_y\<close>.
\<close>

definition emf_update_gc_openacc_x :: "t_emf \<Rightarrow> grid \<times> grid" where
  "emf_update_gc_openacc_x emf =
     (if \<not> moving_window emf then
        for_loop (- gc10 emf) (nx1 emf + gc11 emf) (\<lambda>j.
          for_loop (- gc00 emf) (gc01 emf) (\<lambda>i (E1, B1).
            if i < 0 then
              (copy_fld E1 (i + j * nrow emf) (nx0 emf + i + j * nrow emf),
               copy_fld B1 (i + j * nrow emf) (nx0 emf + i + j * nrow emf))
            else
              (copy_fld E1 (nx0 emf + i + j * nrow emf) (i + j * nrow emf),
               copy_fld B1 (nx0 emf + i + j * nrow emf) (i + j * nrow emf))))
          (E emf, B emf)
      else (E emf, B emf))"

definition emf_update_gc_openacc_y :: "t_emf \<Rightarrow> grid \<times> grid \<Rightarrow> grid \<times> grid" where
  "emf_update_gc_openacc_y emf EB =
     for_loop (- gc00 emf) (nx0 emf + gc01 emf) (\<lambda>i.
       for_loop (- gc10 emf) (gc11 emf) (\<lambda>j (E1, B1).
         if j < 0 then
           (copy_fld E1 (i + j * nrow emf) (i + (nx1 emf + j) * nrow emf),
            copy_fld B1 (i + j * nrow emf) (i + (nx1 emf + j) * nrow emf))
         else
           (copy_fld E1 (i + (nx1 emf + j) * nrow emf) (i + j * nrow emf),
            copy_fld B1 (i + (nx1 emf + j) * nrow emf) (i + j * nrow emf)))) EB"

definition emf_update_gc_openacc :: "t_emf \<Rightarrow> t_emf" where
  "emf_update_gc_openacc emf =
     (let (E', B') = emf_update_gc_openacc_y emf (emf_update_gc_openacc_x emf)
      in emf\<lparr>E := E', B := B'\<rparr>)"

text \<open>
  \<open>emf_move_window_openacc\<close> of the second solver: the shift reads from a copy of the
  buffers (\<open>memcpy\<close>), so the local \<open>E\<close>, \<open>B\<close> are the buffers before the loop.
\<close>

definition emf_move_window_openacc2 :: "t_emf \<Rightarrow> t_emf" where
  "emf_move_window_openacc2 emf =
     (if f32 (f32 (real_of_int (iter emf)) * dt emf)
           > f32 (dx0 emf * f32 (real_of_int (n_move emf + 1))) then
        (let Ec = E_buf emf; Bc = B_buf emf;
             (Eb, Bb) =
               for_loop 0 (gc10 emf + nx1 emf + gc11 emf) (\<lambda>j.
                 for_loop 0 (nrow emf) (\<lambda>i (E1, B1).
                   if i < gc00 emf + nx0 emf - 1 then
                     (E1(i + j * nrow emf := Ec (i + j * nrow emf + 1)),
                      B1(i + j * nrow emf := Bc (i + j * nrow emf + 1)))
                   else
                     (E1(i + j * nrow emf := zero_fld), B1(i + j * nrow emf := zero_fld))))
                 (E_buf emf, B_buf emf);
             emf1 = emf\<lparr>E := of_buf (buf_offset emf) Eb, B := of_buf (buf_offset emf) Bb\<rparr>
         in emf1\<lparr>n_move := n_move emf1 + 1\<rparr>)
      else emf)"

definition emf_advance_openacc2 :: "t_emf \<Rightarrow> t_current \<Rightarrow> t_emf" where
  "emf_advance_openacc2 emf0 current =
     (let dt' = dt emf0;
          emf1 = yee_b_openacc2 emf0 (dt' / 2);
          emf2 = yee_e_openacc2 emf1 current dt';
          emf3 = yee_b_openacc2 emf2 (dt' / 2);
          emf4 = emf_update_gc_openacc emf3;
          emf5 = emf4\<lparr>iter := iter emf4 + 1\<rparr>
      in if moving_window emf5 then emf_move_window_openacc2 emf5 else emf5)"

section \<open>Flat indices and nested loops\<close>

lemma idx_unique:
  fixes i j i' j' n gl :: int
  assumes "- gl \<le> i" "i < n - gl" "- gl \<le> i'" "i' < n - gl" "i + j * n = i' + j' * n"
  shows "i = i' \<and> j = j'"
proof -
  have n: "0 < n" using assms by linarith
  have "(i + gl + j * n) div n = j" using assms n by (simp add: div_pos_pos_trivial)
  moreover have "(i' + gl + j' * n) div n = j'" using assms n by (simp add: div_pos_pos_trivial)
  moreover have "i + gl + j * n = i' + gl + j' * n" using assms by simp
  ultimately have "j = j'" by simp
  then show ?thesis using assms by simp
qed

lemma nested_at:
  fixes cell :: "int \<Rightarrow> int \<Rightarrow> (int \<Rightarrow> 'a) \<Rightarrow> (int \<Rightarrow> 'a)"
  assumes other: "\<And>i j s m. m \<noteq> i + j * n \<Longrightarrow> cell i j s m = s m"
    and at: "\<And>i j s. cell i j s (i + j * n) = g i j (s (i + j * n))"
    and gl: "- gl \<le> ilo" "ihi \<le> n - gl"
    and i: "- gl \<le> i" "i < n - gl"
  shows "for_loop jlo jhi (\<lambda>j. for_loop ilo ihi (\<lambda>i. cell i j)) s (i + j * n) =
     (if ilo \<le> i \<and> i < ihi \<and> jlo \<le> j \<and> j < jhi then g i j (s (i + j * n)) else s (i + j * n))"
proof -
  have ne: "i' + j' * n \<noteq> i + j * n" if "ilo \<le> i'" "i' < ihi" "i' \<noteq> i \<or> j' \<noteq> j" for i' j'
    using idx_unique [of gl i' n i j' j] that gl i by auto
  have row_other: "for_loop ilo ihi (\<lambda>i. cell i j') s' (i + j * n) = s' (i + j * n)"
    if "j' \<noteq> j \<or> \<not> (ilo \<le> i \<and> i < ihi)" for j' s'
    apply (rule for_loop_other)
    apply (rule other)
    using ne that by metis
  show ?thesis
  proof (cases "ilo \<le> i \<and> i < ihi \<and> jlo \<le> j \<and> j < jhi")
    case True
    have row_at: "for_loop ilo ihi (\<lambda>i. cell i j) s' (i + j * n) = g i j (s' (i + j * n))" for s'
      apply (rule for_loop_at [where ?i0.0 = i])
      using True apply simp
      using True apply simp
       apply (rule other)
      using ne apply metis
      apply (rule at)
      done
    have "for_loop jlo jhi (\<lambda>j. for_loop ilo ihi (\<lambda>i. cell i j)) s (i + j * n) = g i j (s (i + j * n))"
      apply (rule for_loop_at [where ?i0.0 = j])
      using True apply simp
      using True apply simp
       apply (rule row_other) apply simp
      apply (rule row_at)
      done
    then show ?thesis using True by simp
  next
    case False
    have "for_loop jlo jhi (\<lambda>j. for_loop ilo ihi (\<lambda>i. cell i j)) s (i + j * n) = s (i + j * n)"
      apply (rule for_loop_other)
      apply (rule for_loop_other)
      apply (rule other)
      using ne False by metis
    then show ?thesis using False by auto
  qed
qed

section \<open>The E-field update\<close>

lemma yee_e_cell_other:
  "m \<noteq> i + j * nrow_e \<Longrightarrow> yee_e_cell B0 J0 dt_dx dt_dy dt' nrow_e nrow_j' i j E1 m = E1 m"
  by (simp add: yee_e_cell_def Let_def)

lemma yee_e_cell_at:
  "yee_e_cell B0 J0 dt_dx dt_dy dt' nrow_e nrow_j' i j E1 (i + j * nrow_e) =
     \<lparr>vx = vx (E1 (i + j * nrow_e))
            + (dt_dy * (vz (B0 (i + j * nrow_e)) - vz (B0 (i + (j - 1) * nrow_e)))
               - dt' * vx (J0 (i + j * nrow_j'))),
      vy = vy (E1 (i + j * nrow_e))
            + (- dt_dx * (vz (B0 (i + j * nrow_e)) - vz (B0 ((i - 1) + j * nrow_e)))
               - dt' * vy (J0 (i + j * nrow_j'))),
      vz = vz (E1 (i + j * nrow_e))
            + (dt_dx * (vy (B0 (i + j * nrow_e)) - vy (B0 ((i - 1) + j * nrow_e)))
               - dt_dy * (vx (B0 (i + j * nrow_e)) - vx (B0 (i + (j - 1) * nrow_e)))
               - dt' * vz (J0 (i + j * nrow_j')))\<rparr>"
  by (simp add: yee_e_cell_def Let_def)


definition spec_advance_E_cell :: "t_emf \<Rightarrow> t_current \<Rightarrow> int \<Rightarrow> int \<Rightarrow> t_vfld" where
  \<comment> \<open>the value of \<open>E[i,j]\<close> after \<open>advance_E\<close> as the specification words it,
      with \<open>dtx = dt / dx[0]\<close> and \<open>dty = dt / dx[1]\<close>\<close>
  "spec_advance_E_cell emf cur i j =
     (let dtx = dt emf / dx0 emf; dty = dt emf / dx1 emf; n = nrow emf in
      \<lparr>vx = vx (E emf (i + j * n))
             + (dty * (vz (B emf (i + j * n)) - vz (B emf (i + (j - 1) * n)))
                - dt emf * vx (J cur (i + j * nrow_j cur))),
       vy = vy (E emf (i + j * n))
             + (- dtx * (vz (B emf (i + j * n)) - vz (B emf ((i - 1) + j * n)))
                - dt emf * vy (J cur (i + j * nrow_j cur))),
       vz = vz (E emf (i + j * n))
             + (dtx * (vy (B emf (i + j * n)) - vy (B emf ((i - 1) + j * n)))
                - dty * (vx (B emf (i + j * n)) - vx (B emf (i + (j - 1) * n)))
                - dt emf * vz (J cur (i + j * nrow_j cur)))\<rparr>)"

definition emf_ex :: t_emf where
  \<comment> \<open>a \<open>1 \<times> 1\<close> region with guard cells \<open>{1, 2}\<close>; only \<open>B.z\<close> of cell \<open>(2, 0)\<close> is non-zero\<close>
  "emf_ex = \<lparr>E = (\<lambda>k. zero_fld), B = (\<lambda>k. zero_fld)(2 := \<lparr>vx = 0, vy = 0, vz = 1\<rparr>),
     nx0 = 1, nx1 = 1, nrow = 4, gc00 = 1, gc01 = 2, gc10 = 1, gc11 = 2,
     dx0 = 1, dx1 = 1, dt = 1, iter = 0, moving_window = False, n_move = 0\<rparr>"

definition cur_ex :: t_current where
  "cur_ex = \<lparr>J = (\<lambda>k. zero_fld), nrow_j = 4\<rparr>"

text \<open>
  C1 (as amended).  On a grid whose rows hold \<open>gc[0][0] + nx[0] + gc[0][1]\<close> cells, one
  call of the E update replaces the value of every cell of its range by the value the
  specification gives (\<open>spec_advance_E_cell\<close>) and leaves every other cell of the row
  untouched.  The range is \<open>0 \<le> i \<le> nx[0]\<close>, \<open>0 \<le> j \<le> nx[1] + 1\<close> for \<open>yee_e_openacc\<close>
  of the OpenACC field solver, and \<open>0 \<le> i \<le> nx[0] + 1\<close>, \<open>0 \<le> j \<le> nx[1] + 1\<close> for the
  second solver.  \<open>B\<close> is not changed (and \<open>J\<close> is only read).
\<close>

theorem yee_e_update_cells:
  assumes "nrow emf = gc00 emf + nx0 emf + gc01 emf" "0 \<le> gc00 emf" "2 \<le> gc01 emf"
    and "- gc00 emf \<le> i" "i < nx0 emf + gc01 emf"
  shows "yee_e_openacc (B emf) (E emf) (J cur) (dt emf / dx0 emf) (dt emf / dx1 emf) (dt emf)
           (nrow emf) (nrow_j cur) (nx0 emf) (nx1 emf) (i + j * nrow emf) =
         (if 0 \<le> i \<and> i \<le> nx0 emf \<and> 0 \<le> j \<and> j \<le> nx1 emf + 1
          then spec_advance_E_cell emf cur i j else E emf (i + j * nrow emf))
       \<and> E (yee_e_openacc2 emf cur (dt emf)) (i + j * nrow emf) =
         (if 0 \<le> i \<and> i \<le> nx0 emf + 1 \<and> 0 \<le> j \<and> j \<le> nx1 emf + 1
          then spec_advance_E_cell emf cur i j else E emf (i + j * nrow emf))
       \<and> B (yee_e_openacc2 emf cur (dt emf)) = B emf"
proof -
  let ?cell = "yee_e_cell (B emf) (J cur) (dt emf / dx0 emf) (dt emf / dx1 emf) (dt emf)
                 (nrow emf) (nrow_j cur)"
  let ?g = "\<lambda>i j v. ?cell i j (\<lambda>_. v) (i + j * nrow emf)"
  have a: "for_loop 0 (nx1 emf + 1 + 1) (\<lambda>j. for_loop 0 (nx0 emf + 1) (\<lambda>i. ?cell i j)) (E emf)
             (i + j * nrow emf) =
      (if 0 \<le> i \<and> i < nx0 emf + 1 \<and> 0 \<le> j \<and> j < nx1 emf + 1 + 1
       then spec_advance_E_cell emf cur i j else E emf (i + j * nrow emf))"
    by (subst nested_at [where gl = "gc00 emf" and g = ?g])
      (use assms in \<open>simp_all add: yee_e_cell_other yee_e_cell_at spec_advance_E_cell_def Let_def\<close>)
  have b: "for_loop 0 (nx1 emf + 1 + 1) (\<lambda>j. for_loop 0 (nx0 emf + 1 + 1) (\<lambda>i. ?cell i j)) (E emf)
             (i + j * nrow emf) =
      (if 0 \<le> i \<and> i < nx0 emf + 1 + 1 \<and> 0 \<le> j \<and> j < nx1 emf + 1 + 1
       then spec_advance_E_cell emf cur i j else E emf (i + j * nrow emf))"
    by (subst nested_at [where gl = "gc00 emf" and g = ?g])
      (use assms in \<open>simp_all add: yee_e_cell_other yee_e_cell_at spec_advance_E_cell_def Let_def\<close>)
  have i1: "i < nx0 emf + 1 \<longleftrightarrow> i \<le> nx0 emf" "i < nx0 emf + 1 + 1 \<longleftrightarrow> i \<le> nx0 emf + 1"
    "j < nx1 emf + 1 + 1 \<longleftrightarrow> j \<le> nx1 emf + 1" by auto
  show ?thesis
    using a b unfolding i1 by (simp add: yee_e_openacc_def yee_e_openacc2_def)
qed

theorem yee_e_update_cells_witness:
  "yee_e_openacc (B emf_ex) (E emf_ex) (J cur_ex) 1 1 1 4 4 1 1 (2 + 0 * 4) =
      \<lparr>vx = 0, vy = 0, vz = 0\<rparr>
   \<and> E (yee_e_openacc2 emf_ex cur_ex 1) (2 + 0 * 4) = \<lparr>vx = 1, vy = - 1, vz = 0\<rparr>
   \<and> B (yee_e_openacc2 emf_ex cur_ex 1) = B emf_ex"
  using yee_e_update_cells [of emf_ex 2 cur_ex 0]
  by (simp add: emf_ex_def cur_ex_def spec_advance_E_cell_def zero_fld_def)

text \<open>
  The claim as stated fails on the second solver: cell \<open>(nx[0] + 1, 0)\<close> lies outside the
  stated range and is changed.
\<close>

theorem yee_e_extra_column_counterexample:
  "E (yee_e_openacc2 emf_ex cur_ex (dt emf_ex)) ((nx0 emf_ex + 1) + 0 * nrow emf_ex)
     \<noteq> E emf_ex ((nx0 emf_ex + 1) + 0 * nrow emf_ex)"
  by (simp add: emf_ex_def cur_ex_def yee_e_openacc2_def yee_e_cell_def zero_fld_def Let_def)


section \<open>Loops of copy statements\<close>

lemma for_loop_fold: "for_loop lo hi body s = fold body [lo..hi - 1] s"
proof (induction lo hi body s rule: for_loop.induct)
  case (1 i n body s)
  show ?case
  proof (cases "i < n")
    case True
    then have "[i..n - 1] = i # [i + 1..n - 1]" by (simp add: upto_rec1)
    then show ?thesis using True "1.IH" by simp
  next
    case False
    then show ?thesis by simp
  qed
qed

definition pairs :: "int list \<Rightarrow> int list \<Rightarrow> (int \<times> int) list" where
  "pairs is js = concat (map (\<lambda>j. map (\<lambda>i. (i, j)) is) js)"

lemma set_pairs: "set (pairs is js) = set is \<times> set js"
  by (auto simp: pairs_def)

lemma fold_pairs: "fold (\<lambda>j. fold (\<lambda>i. f i j) is) js s = fold (\<lambda>(i, j). f i j) (pairs is js) s"
proof (induction js arbitrary: s)
  case Nil
  then show ?case by (simp add: pairs_def)
next
  case (Cons j js)
  have "fold (\<lambda>(i, j). f i j) (map (\<lambda>i. (i, j)) is) s = fold (\<lambda>i. f i j) is s" for s
    by (simp add: fold_map comp_def)
  then show ?case using Cons.IH by (simp add: pairs_def)
qed

lemma fold_prod:
  "fold (\<lambda>p (a, b). (f p a, g p b)) ps (a, b) = (fold f ps a, fold g ps b)"
  by (induction ps arbitrary: a b) auto

definition assign :: "int \<Rightarrow> int \<Rightarrow> (int \<Rightarrow> 'a) \<Rightarrow> (int \<Rightarrow> 'a)" where
  "assign d s F = F(d := F s)"

lemma assign_at: "assign d s F d = F s"
  by (simp add: assign_def)

lemma assign_other: "m \<noteq> d \<Longrightarrow> assign d s F m = F m"
  by (simp add: assign_def)

lemma fold_copies_other:
  "m \<notin> dst ` set ps \<Longrightarrow> fold (\<lambda>p. assign (dst p) (src p)) ps F m = F m"
proof (induction ps arbitrary: F)
  case Nil
  then show ?case by simp
next
  case (Cons q qs)
  have "fold (\<lambda>p. assign (dst p) (src p)) qs (assign (dst q) (src q) F) m = assign (dst q) (src q) F m"
    using Cons.prems by (intro Cons.IH) simp
  moreover have "m \<noteq> dst q" using Cons.prems by auto
  ultimately show ?case by (simp add: assign_other)
qed

lemma fold_copies_at:
  assumes "p \<in> set ps"
    and "\<forall>q\<in>set ps. dst q = dst p \<longrightarrow> src q = src p"
    and "\<forall>q\<in>set ps. \<forall>r\<in>set ps. src q \<noteq> dst r"
  shows "fold (\<lambda>p. assign (dst p) (src p)) ps F (dst p) = F (src p)"
  using assms
proof (induction ps arbitrary: F p)
  case Nil
  then show ?case by simp
next
  case (Cons q qs)
  let ?F = "assign (dst q) (src q) F"
  have inj: "\<forall>r\<in>set qs. dst r = dst p \<longrightarrow> src r = src p"
    using Cons.prems(2) by simp
  have disj: "\<forall>r\<in>set qs. \<forall>r'\<in>set qs. src r \<noteq> dst r'"
    using Cons.prems(3) by simp
  have srcq: "\<forall>r\<in>set qs. src r \<noteq> dst q"
    using Cons.prems(3) by simp
  have step: "fold (\<lambda>p. assign (dst p) (src p)) (q # qs) F = fold (\<lambda>p. assign (dst p) (src p)) qs ?F"
    by simp
  show ?case
  proof (cases "\<exists>r\<in>set qs. dst r = dst p")
    case True
    then obtain r where r: "r \<in> set qs" "dst r = dst p" by blast
    have inj': "\<forall>q\<in>set qs. dst q = dst r \<longrightarrow> src q = src r"
      using inj r by metis
    have "fold (\<lambda>p. assign (dst p) (src p)) qs ?F (dst r) = ?F (src r)"
      by (rule Cons.IH [OF r(1) inj' disj])
    moreover have "src r \<noteq> dst q" using srcq r by blast
    moreover have "src r = src p" using inj r by blast
    ultimately show ?thesis unfolding step using r by (simp add: assign_other)
  next
    case False
    then have "dst p \<notin> dst ` set qs" by force
    then have a: "fold (\<lambda>p. assign (dst p) (src p)) qs ?F (dst p) = ?F (dst p)"
      by (rule fold_copies_other)
    have "p \<notin> set qs" using False by blast
    then have pq: "p = q" using Cons.prems(1) by simp
    show ?thesis using a unfolding step pq by (simp add: assign_at)
  qed
qed

lemma copy_fld_eq: "copy_fld F dst src = assign dst src F"
  by (auto simp: copy_fld_def assign_def Let_def fun_eq_iff)

lemma for_loop_fold': "for_loop lo hi body = fold body [lo..hi - 1]"
  by (rule ext) (rule for_loop_fold)

lemma nested_copies_fold:
  "for_loop jlo jhi (\<lambda>j. for_loop ilo ihi (\<lambda>i. assign (dst i j) (src i j))) F
   = fold (\<lambda>p. assign (case_prod dst p) (case_prod src p)) (pairs [ilo..ihi - 1] [jlo..jhi - 1]) F"
  by (simp add: for_loop_fold' fold_pairs case_prod_unfold)

lemma nested_copies_other:
  assumes "\<And>i j. ilo \<le> i \<Longrightarrow> i < ihi \<Longrightarrow> jlo \<le> j \<Longrightarrow> j < jhi \<Longrightarrow> dst i j \<noteq> m"
  shows "for_loop jlo jhi (\<lambda>j. for_loop ilo ihi (\<lambda>i. assign (dst i j) (src i j))) F m = F m"
  unfolding nested_copies_fold
proof (rule fold_copies_other)
  show "m \<notin> (\<lambda>(x, y). dst x y) ` set (pairs [ilo..ihi - 1] [jlo..jhi - 1])"
    using assms by (fastforce simp: set_pairs)
qed

lemma nested_copies_at:
  assumes "ilo \<le> i" "i < ihi" "jlo \<le> j" "j < jhi"
    and "\<And>i' j'. ilo \<le> i' \<Longrightarrow> i' < ihi \<Longrightarrow> jlo \<le> j' \<Longrightarrow> j' < jhi \<Longrightarrow>
           dst i' j' = dst i j \<Longrightarrow> src i' j' = src i j"
    and "\<And>i' j' i'' j''. ilo \<le> i' \<Longrightarrow> i' < ihi \<Longrightarrow> jlo \<le> j' \<Longrightarrow> j' < jhi \<Longrightarrow>
           ilo \<le> i'' \<Longrightarrow> i'' < ihi \<Longrightarrow> jlo \<le> j'' \<Longrightarrow> j'' < jhi \<Longrightarrow> src i' j' \<noteq> dst i'' j''"
  shows "for_loop jlo jhi (\<lambda>j. for_loop ilo ihi (\<lambda>i. assign (dst i j) (src i j))) F (dst i j)
         = F (src i j)"
proof -
  have "fold (\<lambda>p. assign (case_prod dst p) (case_prod src p)) (pairs [ilo..ihi - 1] [jlo..jhi - 1]) F
          (case_prod dst (i, j)) = F (case_prod src (i, j))"
  proof (rule fold_copies_at)
    show "(i, j) \<in> set (pairs [ilo..ihi - 1] [jlo..jhi - 1])"
      using assms(1-4) by (simp add: set_pairs)
    show "\<forall>q\<in>set (pairs [ilo..ihi - 1] [jlo..jhi - 1]).
       case_prod dst q = case_prod dst (i, j) \<longrightarrow> case_prod src q = case_prod src (i, j)"
      using assms(5) by (simp add: set_pairs)
    show "\<forall>q\<in>set (pairs [ilo..ihi - 1] [jlo..jhi - 1]).
       \<forall>r\<in>set (pairs [ilo..ihi - 1] [jlo..jhi - 1]). case_prod src q \<noteq> case_prod dst r"
      using assms(6) by (simp add: set_pairs)
  qed
  then show ?thesis unfolding nested_copies_fold by simp
qed


lemma for_loop_split:
  "lo \<le> mid \<Longrightarrow> mid \<le> hi \<Longrightarrow> for_loop lo hi body s = for_loop mid hi body (for_loop lo mid body s)"
proof (induction lo hi body s rule: for_loop.induct)
  case (1 i n body s)
  show ?case
  proof (cases "i < mid")
    case True
    then have "i < n" using "1.prems" by simp
    then show ?thesis using True "1.IH" "1.prems" by simp
  next
    case False
    then have "i = mid" using "1.prems" by simp
    then show ?thesis by simp
  qed
qed

lemma for_loop_cong:
  "(\<And>i s. lo \<le> i \<Longrightarrow> i < hi \<Longrightarrow> f i s = g i s) \<Longrightarrow> for_loop lo hi f s = for_loop lo hi g s"
proof (induction lo hi f s rule: for_loop.induct)
  case (1 i n f s)
  show ?case
  proof (cases "i < n")
    case True
    have "for_loop (i + 1) n f (f i s) = for_loop (i + 1) n g (f i s)"
      using True "1.prems" by (intro "1.IH") auto
    then show ?thesis using True "1.prems" by simp
  next
    case False
    then show ?thesis by simp
  qed
qed

definition gcx_dst :: "int \<Rightarrow> int \<Rightarrow> int \<Rightarrow> int \<Rightarrow> int" where
  "gcx_dst n nx i j = (if i < 0 then i + j * n else nx + i + j * n)"

definition gcx_src :: "int \<Rightarrow> int \<Rightarrow> int \<Rightarrow> int \<Rightarrow> int" where
  "gcx_src n nx i j = (if i < 0 then nx + i + j * n else i + j * n)"

definition gcx :: "int \<Rightarrow> int \<Rightarrow> int \<Rightarrow> int \<Rightarrow> int \<Rightarrow> int \<Rightarrow> int \<Rightarrow> (int \<Rightarrow> 'a) \<Rightarrow> (int \<Rightarrow> 'a)" where
  "gcx n nx ny g00 g01 g10 g11 F =
     for_loop (- g10) (ny + g11) (\<lambda>j. for_loop (- g00) g01 (\<lambda>i. assign (gcx_dst n nx i j) (gcx_src n nx i j))) F"

lemma fold_prod':
  "(\<And>p a b. p \<in> set ps \<Longrightarrow> h p (a, b) = (f p a, g p b))
     \<Longrightarrow> fold h ps (a, b) = (fold f ps a, fold g ps b)"
  by (induction ps arbitrary: a b) simp_all

lemma gc_x_openacc_pair:
  "emf_update_gc_x_openacc E0 B0 n nx ny g00 g01 g10 g11 =
     (gcx n nx ny g00 g01 g10 g11 E0, gcx n nx ny g00 g01 g10 g11 B0)"
  unfolding emf_update_gc_x_openacc_def gcx_def for_loop_fold' fold_pairs
  by (rule fold_prod') (simp add: copy_fld_eq gcx_dst_def gcx_src_def split: prod.splits)

lemma gcx_cell:
  fixes F :: "int \<Rightarrow> 'a"
  assumes n: "n = g00 + nx + g01" and g: "0 \<le> g00" "g00 \<le> nx" "0 \<le> g01" "g01 \<le> nx"
    and i: "- g00 \<le> i" "i < nx + g01"
  shows "gcx n nx ny g00 g01 g10 g11 F (i + j * n) =
     (if - g10 \<le> j \<and> j < ny + g11 \<and> i < 0 then F (nx + i + j * n)
      else if - g10 \<le> j \<and> j < ny + g11 \<and> nx \<le> i then F (i - nx + j * n)
      else F (i + j * n))"
proof -
  have uniq: "a + b * n = a' + b' * n \<longleftrightarrow> a = a' \<and> b = b'"
    if "- g00 \<le> a" "a < nx + g01" "- g00 \<le> a'" "a' < nx + g01" for a b a' b'
    using idx_unique [of g00 a n a' b b'] that n by auto
  have dst_col: "\<exists>a. - g00 \<le> a \<and> a < nx + g01 \<and> (a < 0 \<or> nx \<le> a) \<and> gcx_dst n nx i' j' = a + j' * n"
    if "- g00 \<le> i'" "i' < g01" for i' j'
    using that g by (auto simp: gcx_dst_def)
  have src_col: "\<exists>a. 0 \<le> a \<and> a < nx \<and> gcx_src n nx i' j' = a + j' * n"
    if "- g00 \<le> i'" "i' < g01" for i' j'
    using that g by (auto simp: gcx_src_def)
  have disj: "gcx_src n nx i' j' \<noteq> gcx_dst n nx i'' j''"
    if h: "- g00 \<le> i'" "i' < g01" "- g00 \<le> i''" "i'' < g01" for i' j' i'' j''
  proof -
    obtain a where a: "0 \<le> a" "a < nx" "gcx_src n nx i' j' = a + j' * n"
      using src_col [OF h(1,2)] by blast
    obtain c where c: "- g00 \<le> c" "c < nx + g01" "c < 0 \<or> nx \<le> c" "gcx_dst n nx i'' j'' = c + j'' * n"
      using dst_col [OF h(3,4)] by blast
    have "a + j' * n \<noteq> c + j'' * n"
      using uniq [of a c j' j''] a c g by auto
    then show ?thesis using a c by simp
  qed
  have inj: "gcx_src n nx i' j' = gcx_src n nx i'' j''"
    if "- g00 \<le> i'" "i' < g01" "- g00 \<le> i''" "i'' < g01" "gcx_dst n nx i' j' = gcx_dst n nx i'' j''" for i' j' i'' j''
  proof -
    have "i' = i'' \<and> j' = j''"
      using that uniq [of "if i' < 0 then i' else nx + i'" "if i'' < 0 then i'' else nx + i''" j' j''] g
      by (auto simp: gcx_dst_def split: if_splits)
    then show ?thesis by simp
  qed
  consider (lo) "- g10 \<le> j \<and> j < ny + g11 \<and> i < 0" | (hi) "- g10 \<le> j \<and> j < ny + g11 \<and> nx \<le> i"
    | (no) "\<not> (- g10 \<le> j \<and> j < ny + g11 \<and> (i < 0 \<or> nx \<le> i))" by blast
  then show ?thesis
  proof cases
    case lo
    have r: "- g00 \<le> i" "i < g01" "- g10 \<le> j" "j < ny + g11" using lo i g by auto
    have "gcx n nx ny g00 g01 g10 g11 F (gcx_dst n nx i j) = F (gcx_src n nx i j)"
      unfolding gcx_def
      by (rule nested_copies_at [OF r]) (erule (2) inj [OF _ _ r(1,2)], erule (1) disj, assumption+)
    then show ?thesis using lo by (simp add: gcx_dst_def gcx_src_def)
  next
    case hi
    have r: "- g00 \<le> i - nx" "i - nx < g01" "- g10 \<le> j" "j < ny + g11" using hi i g by auto
    have "gcx n nx ny g00 g01 g10 g11 F (gcx_dst n nx (i - nx) j) = F (gcx_src n nx (i - nx) j)"
      unfolding gcx_def
      by (rule nested_copies_at [OF r]) (erule (2) inj [OF _ _ r(1,2)], erule (1) disj, assumption+)
    then show ?thesis using hi g by (simp add: gcx_dst_def gcx_src_def)
  next
    case no
    have "gcx n nx ny g00 g01 g10 g11 F (i + j * n) = F (i + j * n)"
      unfolding gcx_def
    proof (rule nested_copies_other)
      fix i' j' assume a: "- g00 \<le> i'" "i' < g01" "- g10 \<le> j'" "j' < ny + g11"
      obtain c where c: "- g00 \<le> c" "c < nx + g01" "c < 0 \<or> nx \<le> c" "gcx_dst n nx i' j' = c + j' * n"
        using dst_col [OF a(1,2)] by blast
      show "gcx_dst n nx i' j' \<noteq> i + j * n"
        using uniq [of c i j' j] c i no a by auto
    qed
    then show ?thesis using no by auto
  qed
qed

section \<open>Loops over pairs of arrays\<close>

lemma for_loop_prod':
  "(\<And>i a b. lo \<le> i \<Longrightarrow> i < hi \<Longrightarrow> h i (a, b) = (f i a, g i b))
     \<Longrightarrow> for_loop lo hi h (a, b) = (for_loop lo hi f a, for_loop lo hi g b)"
proof (induction lo hi h "(a, b)" arbitrary: a b rule: for_loop.induct)
  case (1 i n h)
  show ?case
  proof (cases "i < n")
    case True
    have hi: "h i (a, b) = (f i a, g i b)" using True "1.prems" by simp
    have "for_loop (i + 1) n h (f i a, g i b) = (for_loop (i + 1) n f (f i a), for_loop (i + 1) n g (g i b))"
      using True hi "1.prems" by (intro "1.hyps") auto
    then show ?thesis using True hi by simp
  next
    case False
    then show ?thesis by simp
  qed
qed

text \<open>
  \<open>shifted n g00 nx F c r\<close> is the content of column \<open>c\<close> of buffer row \<open>r\<close> after the
  window has moved: the value of the right neighbour, and zero from the last interior
  column \<open>gc[0][0] + nx[0] - 1\<close> on.
\<close>

definition shifted :: "int \<Rightarrow> int \<Rightarrow> int \<Rightarrow> grid \<Rightarrow> int \<Rightarrow> int \<Rightarrow> t_vfld" where
  "shifted n g00 nx F c r = (if c < g00 + nx - 1 then F (c + 1 + r * n) else zero_fld)"

lemma nested_prod:
  assumes "\<And>i j a b. h i j (a, b) = (f i j a, g i j b)"
  shows "for_loop jlo jhi (\<lambda>j. for_loop ilo ihi (\<lambda>i. h i j)) (a, b) =
     (for_loop jlo jhi (\<lambda>j. for_loop ilo ihi (\<lambda>i. f i j)) a,
      for_loop jlo jhi (\<lambda>j. for_loop ilo ihi (\<lambda>i. g i j)) b)"
  unfolding for_loop_fold' fold_pairs
  by (rule fold_prod') (simp add: assms split: prod.splits)

lemma move_window2_loops:
  assumes "0 \<le> c" "c < n"
  shows "for_loop 0 rows (\<lambda>j. for_loop 0 n (\<lambda>i (E1, B1).
                   if i < g00 + nx - 1 then
                     (E1(i + j * n := Ec (i + j * n + 1)),
                      B1(i + j * n := Bc (i + j * n + 1)))
                   else
                     (E1(i + j * n := zero_fld), B1(i + j * n := zero_fld)))) (E0, B0)
     = (Er, Br) \<Longrightarrow>
     Er (c + r * n) = (if 0 \<le> r \<and> r < rows then shifted n g00 nx Ec c r else E0 (c + r * n))
   \<and> Br (c + r * n) = (if 0 \<le> r \<and> r < rows then shifted n g00 nx Bc c r else B0 (c + r * n))"
proof -
  let ?f = "\<lambda>(Fc::grid) i j (F::grid). F(i + j * n := (if i < g00 + nx - 1 then Fc (i + j * n + 1) else zero_fld))"
  assume a: "for_loop 0 rows (\<lambda>j. for_loop 0 n (\<lambda>i (E1, B1).
                   if i < g00 + nx - 1 then
                     (E1(i + j * n := Ec (i + j * n + 1)),
                      B1(i + j * n := Bc (i + j * n + 1)))
                   else
                     (E1(i + j * n := zero_fld), B1(i + j * n := zero_fld)))) (E0, B0)
     = (Er, Br)"
  have "for_loop 0 rows (\<lambda>j. for_loop 0 n (\<lambda>i (E1, B1).
                   if i < g00 + nx - 1 then
                     (E1(i + j * n := Ec (i + j * n + 1)),
                      B1(i + j * n := Bc (i + j * n + 1)))
                   else
                     (E1(i + j * n := zero_fld), B1(i + j * n := zero_fld)))) (E0, B0)
     = (for_loop 0 rows (\<lambda>j. for_loop 0 n (\<lambda>i. ?f Ec i j)) E0,
        for_loop 0 rows (\<lambda>j. for_loop 0 n (\<lambda>i. ?f Bc i j)) B0)"
    by (rule nested_prod) simp
  then have Er: "Er = for_loop 0 rows (\<lambda>j. for_loop 0 n (\<lambda>i. ?f Ec i j)) E0"
    and Br: "Br = for_loop 0 rows (\<lambda>j. for_loop 0 n (\<lambda>i. ?f Bc i j)) B0"
    using a by simp_all
  have gen: "for_loop 0 rows (\<lambda>j. for_loop 0 n (\<lambda>i. ?f Fc i j)) F0 (c + r * n)
      = (if 0 \<le> c \<and> c < n \<and> 0 \<le> r \<and> r < rows
         then (if c < g00 + nx - 1 then Fc (c + r * n + 1) else zero_fld) else F0 (c + r * n))" for Fc F0
    by (rule nested_at [where gl = 0 and g = "\<lambda>i j v. if i < g00 + nx - 1 then Fc (i + j * n + 1) else zero_fld"])
       (use assms in auto)
  show ?thesis
    unfolding Er Br gen using assms by (auto simp: shifted_def ac_simps)
qed

lemma for_loop_other_proj:
  "(\<And>i s. lo \<le> i \<Longrightarrow> i < hi \<Longrightarrow> \<pi> (body i s) m = \<pi> s m) \<Longrightarrow> \<pi> (for_loop lo hi body s) m = \<pi> s m"
proof (induction lo hi body s rule: for_loop.induct)
  case (1 i n body s)
  show ?case
  proof (cases "i < n")
    case True
    have "\<pi> (for_loop (i + 1) n body (body i s)) m = \<pi> (body i s) m"
      using True "1.prems" by (intro "1.IH") auto
    then show ?thesis using True "1.prems" by simp
  next
    case False
    then show ?thesis by simp
  qed
qed

lemma for_loop_at_frame_proj:
  assumes "lo \<le> i0" "i0 < hi" "m \<in> S"
    and frame: "\<And>i s k. lo \<le> i \<Longrightarrow> i < hi \<Longrightarrow> i \<noteq> i0 \<Longrightarrow> k \<in> S \<Longrightarrow> \<pi> (body i s) k = \<pi> s k"
    and dep: "\<And>s s'. (\<forall>k\<in>S. \<pi> s k = \<pi> s' k) \<Longrightarrow> \<pi> (body i0 s) m = \<pi> (body i0 s') m"
  shows "\<pi> (for_loop lo hi body s) m = \<pi> (body i0 s) m"
proof -
  let ?s1 = "for_loop lo i0 body s"
  have split: "for_loop lo hi body s = for_loop (i0 + 1) hi body (body i0 ?s1)"
    using for_loop_split [of lo i0 hi body s] assms(1,2) by simp
  have s1: "\<forall>k\<in>S. \<pi> ?s1 k = \<pi> s k"
  proof
    fix k assume k: "k \<in> S"
    show "\<pi> ?s1 k = \<pi> s k"
      by (rule for_loop_other_proj) (use frame k assms(2) in auto)
  qed
  have "\<pi> (for_loop (i0 + 1) hi body (body i0 ?s1)) m = \<pi> (body i0 ?s1) m"
    by (rule for_loop_other_proj) (use frame assms(1,3) in auto)
  also have "\<dots> = \<pi> (body i0 s) m" by (rule dep [OF s1])
  finally show ?thesis using split by simp
qed

lemma chunk_phase1:
  assumes "for_loop 0 lbs (\<lambda>i (Bt, Et).
             if b + i < lm then
               (Bt(i := B1 (b + 1 + i + j * n)), Et(i := E1 (b + 1 + i + j * n)))
             else (Bt(i := zero_fld), Et(i := zero_fld))) temps = (Bt', Et')"
    and "0 \<le> i" "i < lbs"
  shows "Bt' i = (if b + i < lm then B1 (b + 1 + i + j * n) else zero_fld)"
    and "Et' i = (if b + i < lm then E1 (b + 1 + i + j * n) else zero_fld)"
proof -
  obtain Bt0 Et0 where t: "temps = (Bt0, Et0)" by (cases temps)
  let ?f = "\<lambda>(F::grid) i (T::grid). T(i := (if b + i < lm then F (b + 1 + i + j * n) else zero_fld))"
  have "for_loop 0 lbs (\<lambda>i (Bt, Et).
             if b + i < lm then
               (Bt(i := B1 (b + 1 + i + j * n)), Et(i := E1 (b + 1 + i + j * n)))
             else (Bt(i := zero_fld), Et(i := zero_fld))) (Bt0, Et0)
        = (for_loop 0 lbs (?f B1) Bt0, for_loop 0 lbs (?f E1) Et0)"
    by (rule for_loop_prod') simp
  then have B: "Bt' = for_loop 0 lbs (?f B1) Bt0" and E: "Et' = for_loop 0 lbs (?f E1) Et0"
    using assms(1) t by simp_all
  have gen: "for_loop 0 lbs (?f F) T0 i = (if b + i < lm then F (b + 1 + i + j * n) else zero_fld)" for F T0
    by (rule for_loop_at [where ?i0.0 = i and g = "\<lambda>_. if b + i < lm then F (b + 1 + i + j * n) else zero_fld"])
       (use assms(2,3) in auto)
  show "Bt' i = (if b + i < lm then B1 (b + 1 + i + j * n) else zero_fld)" unfolding B gen ..
  show "Et' i = (if b + i < lm then E1 (b + 1 + i + j * n) else zero_fld)" unfolding E gen ..
qed

lemma chunk_phase2:
  fixes E1 B1 Et Bt :: grid
  assumes "for_loop 0 lbs (\<lambda>i (E2, B2).
             if b + i < n then (E2(b + i + j * n := Et i), B2(b + i + j * n := Bt i))
             else (E2, B2)) (E1, B1) = (E', B')"
  shows "E' m = (if b \<le> m - j * n \<and> m - j * n < b + lbs \<and> m - j * n < n then Et (m - j * n - b) else E1 m)"
    and "B' m = (if b \<le> m - j * n \<and> m - j * n < b + lbs \<and> m - j * n < n then Bt (m - j * n - b) else B1 m)"
proof -
  let ?f = "\<lambda>(T::grid) i (F::grid). if b + i < n then F(b + i + j * n := T i) else F"
  have "for_loop 0 lbs (\<lambda>i (E2, B2).
             if b + i < n then (E2(b + i + j * n := Et i), B2(b + i + j * n := Bt i))
             else (E2, B2)) (E1, B1) = (for_loop 0 lbs (?f Et) E1, for_loop 0 lbs (?f Bt) B1)"
    by (rule for_loop_prod') simp
  then have E: "E' = for_loop 0 lbs (?f Et) E1" and B: "B' = for_loop 0 lbs (?f Bt) B1"
    using assms by simp_all
  have gen: "for_loop 0 lbs (?f T) F m =
      (if b \<le> m - j * n \<and> m - j * n < b + lbs \<and> m - j * n < n then T (m - j * n - b) else F m)" for T F
  proof (cases "b \<le> m - j * n \<and> m - j * n < b + lbs \<and> m - j * n < n")
    case True
    have "for_loop 0 lbs (?f T) F m = T (m - j * n - b)"
      by (rule for_loop_at [where ?i0.0 = "m - j * n - b" and g = "\<lambda>_. T (m - j * n - b)"])
         (use True in auto)
    then show ?thesis using True by simp
  next
    case False
    have "for_loop 0 lbs (?f T) F m = F m"
      by (rule for_loop_other) (use False in auto)
    then show ?thesis using False by auto
  qed
  show "E' m = (if b \<le> m - j * n \<and> m - j * n < b + lbs \<and> m - j * n < n then Et (m - j * n - b) else E1 m)"
    unfolding E gen ..
  show "B' m = (if b \<le> m - j * n \<and> m - j * n < b + lbs \<and> m - j * n < n then Bt (m - j * n - b) else B1 m)"
    unfolding B gen ..
qed

lemma move_window_chunk_cell:
  shows "fst (fst (move_window_chunk lbs n g00 nx j b s)) m =
     (if b \<le> m - j * n \<and> m - j * n < b + lbs \<and> m - j * n < n
      then shifted n g00 nx (fst (fst s)) (m - j * n) j else fst (fst s) m)"
    and "snd (fst (move_window_chunk lbs n g00 nx j b s)) m =
     (if b \<le> m - j * n \<and> m - j * n < b + lbs \<and> m - j * n < n
      then shifted n g00 nx (snd (fst s)) (m - j * n) j else snd (fst s) m)"
proof -
  obtain E1 B1 temps where s: "s = ((E1, B1), temps)" by (cases s) auto
  obtain Bt Et where p1: "for_loop 0 lbs (\<lambda>i (Bt, Et).
             if b + i < g00 + nx - 1 then
               (Bt(i := B1 (b + 1 + i + j * n)), Et(i := E1 (b + 1 + i + j * n)))
             else (Bt(i := zero_fld), Et(i := zero_fld))) temps = (Bt, Et)"
    using prod.exhaust by blast
  obtain E' B' where p2: "for_loop 0 lbs (\<lambda>i (E2, B2).
             if b + i < n then (E2(b + i + j * n := Et i), B2(b + i + j * n := Bt i))
             else (E2, B2)) (E1, B1) = (E', B')"
    using prod.exhaust by blast
  have r: "fst (move_window_chunk lbs n g00 nx j b s) = (E', B')"
    by (simp add: move_window_chunk_def s p1 p2)
  have t: "Et (m - j * n - b) = shifted n g00 nx E1 (m - j * n) j"
          "Bt (m - j * n - b) = shifted n g00 nx B1 (m - j * n) j"
    if "b \<le> m - j * n" "m - j * n < b + lbs"
    using chunk_phase1 [OF p1, of "m - j * n - b"] that by (simp_all add: shifted_def ac_simps)
  show "fst (fst (move_window_chunk lbs n g00 nx j b s)) m =
     (if b \<le> m - j * n \<and> m - j * n < b + lbs \<and> m - j * n < n
      then shifted n g00 nx (fst (fst s)) (m - j * n) j else fst (fst s) m)"
    unfolding r using chunk_phase2(1) [OF p2, of m] t by (simp add: s)
  show "snd (fst (move_window_chunk lbs n g00 nx j b s)) m =
     (if b \<le> m - j * n \<and> m - j * n < b + lbs \<and> m - j * n < n
      then shifted n g00 nx (snd (fst s)) (m - j * n) j else snd (fst s) m)"
    unfolding r using chunk_phase2(2) [OF p2, of m] t by (simp add: s)
qed

lemma move_window_row:
  assumes "0 < lbs"
  shows "fst (fst (for_step b n lbs (move_window_chunk lbs n g00 nx j) s)) m =
     (if b \<le> m - j * n \<and> m - j * n < n
      then shifted n g00 nx (fst (fst s)) (m - j * n) j else fst (fst s) m)
   \<and> snd (fst (for_step b n lbs (move_window_chunk lbs n g00 nx j) s)) m =
     (if b \<le> m - j * n \<and> m - j * n < n
      then shifted n g00 nx (snd (fst s)) (m - j * n) j else snd (fst s) m)"
  using assms
proof (induction b n lbs "move_window_chunk lbs n g00 nx j" s arbitrary: m rule: for_step.induct)
  case (1 b n lbs s)
  let ?c = "m - j * n"
  let ?s' = "move_window_chunk lbs n g00 nx j b s"
  show ?case
  proof (cases "b < n")
    case True
    note IH = "1.hyps" [OF conjI [OF True "1.prems"] "1.prems"]
    have step: "for_step b n lbs (move_window_chunk lbs n g00 nx j) s
        = for_step (b + lbs) n lbs (move_window_chunk lbs n g00 nx j) ?s'"
      using True "1.prems" by simp
    have keepE: "shifted n g00 nx (fst (fst ?s')) ?c j = shifted n g00 nx (fst (fst s)) ?c j"
      and keepB: "shifted n g00 nx (snd (fst ?s')) ?c j = shifted n g00 nx (snd (fst s)) ?c j"
      if "b + lbs \<le> ?c"
      using that "1.prems" by (simp_all add: shifted_def move_window_chunk_cell)
    show ?thesis
      unfolding step
      using IH [of m] keepE keepB "1.prems" True
      by (auto simp: move_window_chunk_cell)
  next
    case False
    then show ?thesis by auto
  qed
qed

lemma row_cell_unique:
  fixes c r j n k :: int
  assumes "0 \<le> c" "c < n" "k = c + r * n"
  shows "(0 \<le> k - j * n \<and> k - j * n < n) \<longleftrightarrow> j = r"
proof
  assume a: "0 \<le> k - j * n \<and> k - j * n < n"
  define d where "d = k - j * n"
  have "d + j * n = c + r * n" unfolding d_def using assms(3) by simp
  moreover have "- 0 \<le> d" "d < n - 0" using a unfolding d_def by simp_all
  moreover have "- 0 \<le> c" "c < n - 0" using assms by simp_all
  ultimately have "d = c \<and> j = r" by (rule idx_unique [of 0 d n c j r, rotated 4])
  then show "j = r" ..
next
  assume "j = r" then show "0 \<le> k - j * n \<and> k - j * n < n" using assms by simp
qed

lemma move_window_cells:
  assumes lbs: "0 < lbs" and n: "n = g00 + nx + g01" "0 \<le> g01" and c: "0 \<le> c" "c < n"
  shows "fst (emf_move_window_openacc lbs Eb Bb n g00 g01 g10 g11 nx ny) (c + r * n) =
           (if 0 \<le> r \<and> r < g10 + ny + g11 then shifted n g00 nx Eb c r else Eb (c + r * n))"
    and "snd (emf_move_window_openacc lbs Eb Bb n g00 g01 g10 g11 nx ny) (c + r * n) =
           (if 0 \<le> r \<and> r < g10 + ny + g11 then shifted n g00 nx Bb c r else Bb (c + r * n))"
proof -
  let ?body = "\<lambda>j EB. fst (for_step 0 n lbs (move_window_chunk lbs n g00 nx j)
              (EB, ((\<lambda>i. undefined), (\<lambda>i. undefined))))"
  let ?S = "{k. \<exists>c'. 0 \<le> c' \<and> c' < n \<and> k = c' + r * n}"
  have m: "c + r * n \<in> ?S" using c by blast
  have bodyE: "fst (?body j s) k = (if 0 \<le> k - j * n \<and> k - j * n < n
      then shifted n g00 nx (fst s) (k - j * n) j else fst s k)" for j s k
    using move_window_row [OF lbs, of 0 n g00 nx j "(s, ((\<lambda>i. undefined), (\<lambda>i. undefined)))" k] by simp
  have bodyB: "snd (?body j s) k = (if 0 \<le> k - j * n \<and> k - j * n < n
      then shifted n g00 nx (snd s) (k - j * n) j else snd s k)" for j s k
    using move_window_row [OF lbs, of 0 n g00 nx j "(s, ((\<lambda>i. undefined), (\<lambda>i. undefined)))" k] by simp
  have frameE: "fst (?body j s) k = fst s k" if "j \<noteq> r" "k \<in> ?S" for j s k
    using that row_cell_unique [of _ n k r j] unfolding bodyE by auto
  have frameB: "snd (?body j s) k = snd s k" if "j \<noteq> r" "k \<in> ?S" for j s k
    using that row_cell_unique [of _ n k r j] unfolding bodyB by auto
  have nextS: "c + 1 + r * n \<in> ?S" if "c < g00 + nx - 1"
    using that c n by (intro CollectI exI [of _ "c + 1"]) simp
  have atE: "fst (?body r s) (c + r * n) = shifted n g00 nx (fst s) c r" for s
    unfolding bodyE using c by simp
  have atB: "snd (?body r s) (c + r * n) = shifted n g00 nx (snd s) c r" for s
    unfolding bodyB using c by simp
  have depE: "fst (?body r s) (c + r * n) = fst (?body r s') (c + r * n)"
    if "\<forall>k\<in>?S. fst s k = fst s' k" for s s'
    unfolding atE using that nextS by (simp add: shifted_def)
  have depB: "snd (?body r s) (c + r * n) = snd (?body r s') (c + r * n)"
    if "\<forall>k\<in>?S. snd s k = snd s' k" for s s'
    unfolding atB using that nextS by (simp add: shifted_def)
  show "fst (emf_move_window_openacc lbs Eb Bb n g00 g01 g10 g11 nx ny) (c + r * n) =
           (if 0 \<le> r \<and> r < g10 + ny + g11 then shifted n g00 nx Eb c r else Eb (c + r * n))"
  proof (cases "0 \<le> r \<and> r < g10 + ny + g11")
    case True
    have "fst (for_loop 0 (g10 + ny + g11) ?body (Eb, Bb)) (c + r * n) = fst (?body r (Eb, Bb)) (c + r * n)"
      using True m frameE depE
      by (intro for_loop_at_frame_proj [where S = ?S]) (simp, simp, assumption, blast, blast)
    then show ?thesis using True unfolding emf_move_window_openacc_def atE by simp
  next
    case False
    have "fst (for_loop 0 (g10 + ny + g11) ?body (Eb, Bb)) (c + r * n) = fst (Eb, Bb) (c + r * n)"
      by (rule for_loop_other_proj) (use False frameE m in auto)
    then show ?thesis using False unfolding emf_move_window_openacc_def by auto
  qed
  show "snd (emf_move_window_openacc lbs Eb Bb n g00 g01 g10 g11 nx ny) (c + r * n) =
           (if 0 \<le> r \<and> r < g10 + ny + g11 then shifted n g00 nx Bb c r else Bb (c + r * n))"
  proof (cases "0 \<le> r \<and> r < g10 + ny + g11")
    case True
    have "snd (for_loop 0 (g10 + ny + g11) ?body (Eb, Bb)) (c + r * n) = snd (?body r (Eb, Bb)) (c + r * n)"
      using True m frameB depB
      by (intro for_loop_at_frame_proj [where S = ?S]) (simp, simp, assumption, blast, blast)
    then show ?thesis using True unfolding emf_move_window_openacc_def atB by simp
  next
    case False
    have "snd (for_loop 0 (g10 + ny + g11) ?body (Eb, Bb)) (c + r * n) = snd (Eb, Bb) (c + r * n)"
      by (rule for_loop_other_proj) (use False frameB m in auto)
    then show ?thesis using False unfolding emf_move_window_openacc_def by auto
  qed
qed

section \<open>Periodic guard cells in x\<close>

definition periodic_x :: "t_emf \<Rightarrow> grid \<Rightarrow> int \<Rightarrow> bool" where
  "periodic_x emf F j \<longleftrightarrow>
     F (- 1 + j * nrow emf) = F (nx0 emf - 1 + j * nrow emf)
   \<and> F (nx0 emf + j * nrow emf) = F (0 + j * nrow emf)
   \<and> F (nx0 emf + 1 + j * nrow emf) = F (1 + j * nrow emf)"

lemma gcx_periodic:
  fixes F :: grid
  assumes "nrow emf = nx0 emf + 3" "2 \<le> nx0 emf" "- g10 \<le> j" "j < ny + g11"
  shows "periodic_x emf (gcx (nrow emf) (nx0 emf) ny 1 2 g10 g11 F) j"
proof -
  let ?G = "gcx (nrow emf) (nx0 emf) ny 1 2 g10 g11 F"
  have cell: "?G (i + j * nrow emf) =
     (if i < 0 then F (nx0 emf + i + j * nrow emf)
      else if nx0 emf \<le> i then F (i - nx0 emf + j * nrow emf)
      else F (i + j * nrow emf))" if "- 1 \<le> i" "i < nx0 emf + 2" for i
    using gcx_cell [of "nrow emf" 1 "nx0 emf" 2 i ny g10 g11 F j] assms that by simp
  show ?thesis
    unfolding periodic_x_def
    using cell [of "- 1"] cell [of "nx0 emf - 1"] cell [of "nx0 emf"] cell [of 0]
      cell [of "nx0 emf + 1"] cell [of 1] assms(2)
    by simp
qed

lemma gc_x_rows_eq:
  assumes "0 \<le> g00" "0 \<le> g01"
  shows "(let (E2, B2) = for_loop (- g00) 0 L (E1, B1) in for_loop 0 g01 U (E2, B2))
       = for_loop (- g00) g01 (\<lambda>i s. if i < 0 then L i s else U i s) (E1, B1)"
proof -
  have "for_loop (- g00) g01 (\<lambda>i s. if i < 0 then L i s else U i s) (E1, B1)
      = for_loop 0 g01 (\<lambda>i s. if i < 0 then L i s else U i s)
          (for_loop (- g00) 0 (\<lambda>i s. if i < 0 then L i s else U i s) (E1, B1))"
    using assms by (intro for_loop_split) auto
  also have "for_loop (- g00) 0 (\<lambda>i s. if i < 0 then L i s else U i s) (E1, B1)
      = for_loop (- g00) 0 L (E1, B1)"
    by (rule for_loop_cong) simp
  also have "for_loop 0 g01 (\<lambda>i s. if i < 0 then L i s else U i s) (for_loop (- g00) 0 L (E1, B1))
      = for_loop 0 g01 U (for_loop (- g00) 0 L (E1, B1))"
    by (rule for_loop_cong) simp
  finally show ?thesis by (simp add: case_prod_unfold)
qed

lemma emf_update_gc_x_eq:
  assumes "\<not> moving_window emf" "0 \<le> gc00 emf" "0 \<le> gc01 emf"
  shows "emf_update_gc_x emf =
     emf\<lparr>E := gcx (nrow emf) (nx0 emf) (nx1 emf) (gc00 emf) (gc01 emf) (gc10 emf) (gc11 emf) (E emf),
         B := gcx (nrow emf) (nx0 emf) (nx1 emf) (gc00 emf) (gc01 emf) (gc10 emf) (gc11 emf) (B emf)\<rparr>"
proof -
  let ?L = "\<lambda>j i (E3, B3). (copy_fld E3 (i + j * nrow emf) (nx0 emf + i + j * nrow emf),
                    copy_fld B3 (i + j * nrow emf) (nx0 emf + i + j * nrow emf))"
  let ?U = "\<lambda>j i (E3, B3). (copy_fld E3 (nx0 emf + i + j * nrow emf) (i + j * nrow emf),
                    copy_fld B3 (nx0 emf + i + j * nrow emf) (i + j * nrow emf))"
  have rows: "for_loop (- gc10 emf) (nx1 emf + gc11 emf) (\<lambda>j (E1, B1).
             let (E2, B2) = for_loop (- gc00 emf) 0 (?L j) (E1, B1)
             in for_loop 0 (gc01 emf) (?U j) (E2, B2)) (E emf, B emf)
     = for_loop (- gc10 emf) (nx1 emf + gc11 emf) (\<lambda>j.
         for_loop (- gc00 emf) (gc01 emf) (\<lambda>i (E1, B1).
         if i < 0 then
           (copy_fld E1 (i + j * nrow emf) (nx0 emf + i + j * nrow emf),
            copy_fld B1 (i + j * nrow emf) (nx0 emf + i + j * nrow emf))
         else
           (copy_fld E1 (nx0 emf + i + j * nrow emf) (i + j * nrow emf),
            copy_fld B1 (nx0 emf + i + j * nrow emf) (i + j * nrow emf)))) (E emf, B emf)"
  proof (rule for_loop_cong)
    fix j :: int and s :: "grid \<times> grid"
    obtain E1 B1 where s: "s = (E1, B1)" by (cases s)
    have "(let (E2, B2) = for_loop (- gc00 emf) 0 (?L j) (E1, B1) in for_loop 0 (gc01 emf) (?U j) (E2, B2))
        = for_loop (- gc00 emf) (gc01 emf) (\<lambda>i s. if i < 0 then ?L j i s else ?U j i s) (E1, B1)"
      by (rule gc_x_rows_eq [OF assms(2,3)])
    also have "\<dots> = for_loop (- gc00 emf) (gc01 emf) (\<lambda>i (E1, B1).
         if i < 0 then
           (copy_fld E1 (i + j * nrow emf) (nx0 emf + i + j * nrow emf),
            copy_fld B1 (i + j * nrow emf) (nx0 emf + i + j * nrow emf))
         else
           (copy_fld E1 (nx0 emf + i + j * nrow emf) (i + j * nrow emf),
            copy_fld B1 (nx0 emf + i + j * nrow emf) (i + j * nrow emf))) (E1, B1)"
      by (rule for_loop_cong) (simp split: prod.splits)
    finally show "(case s of (E1, B1) \<Rightarrow>
             let (E2, B2) = for_loop (- gc00 emf) 0 (?L j) (E1, B1)
             in for_loop 0 (gc01 emf) (?U j) (E2, B2)) =
        for_loop (- gc00 emf) (gc01 emf) (\<lambda>i (E1, B1).
         if i < 0 then
           (copy_fld E1 (i + j * nrow emf) (nx0 emf + i + j * nrow emf),
            copy_fld B1 (i + j * nrow emf) (nx0 emf + i + j * nrow emf))
         else
           (copy_fld E1 (nx0 emf + i + j * nrow emf) (i + j * nrow emf),
            copy_fld B1 (nx0 emf + i + j * nrow emf) (i + j * nrow emf))) s"
      by (simp add: s)
  qed
  show ?thesis
    unfolding emf_update_gc_x_def rows
    using assms(1) gc_x_openacc_pair [of "E emf" "B emf" "nrow emf" "nx0 emf" "nx1 emf"
        "gc00 emf" "gc01 emf" "gc10 emf" "gc11 emf"]
    by (simp add: emf_update_gc_x_openacc_def)
qed

lemma emf_update_gc_openacc_x_eq:
  "emf_update_gc_openacc_x emf =
     (if moving_window emf then (E emf, B emf)
      else (gcx (nrow emf) (nx0 emf) (nx1 emf) (gc00 emf) (gc01 emf) (gc10 emf) (gc11 emf) (E emf),
            gcx (nrow emf) (nx0 emf) (nx1 emf) (gc00 emf) (gc01 emf) (gc10 emf) (gc11 emf) (B emf)))"
  using gc_x_openacc_pair [of "E emf" "B emf" "nrow emf" "nx0 emf" "nx1 emf"
        "gc00 emf" "gc01 emf" "gc10 emf" "gc11 emf"]
  by (simp add: emf_update_gc_openacc_x_def emf_update_gc_x_openacc_def)

definition emf_ex2 :: t_emf where
  "emf_ex2 = \<lparr>E = (\<lambda>k. \<lparr>vx = of_int k, vy = 0, vz = 1\<rparr>), B = (\<lambda>k. \<lparr>vx = 0, vy = of_int k, vz = 2\<rparr>),
     nx0 = 2, nx1 = 2, nrow = 5, gc00 = 1, gc01 = 2, gc10 = 1, gc11 = 2,
     dx0 = 1, dx1 = 1, dt = 2, iter = 0, moving_window = False, n_move = 0\<rparr>"

definition gcy_dst :: "int \<Rightarrow> int \<Rightarrow> int \<Rightarrow> int \<Rightarrow> int" where
  "gcy_dst n ny i j = (if j < 0 then i + j * n else i + (ny + j) * n)"

definition gcy_src :: "int \<Rightarrow> int \<Rightarrow> int \<Rightarrow> int \<Rightarrow> int" where
  "gcy_src n ny i j = (if j < 0 then i + (ny + j) * n else i + j * n)"

definition gcy :: "int \<Rightarrow> int \<Rightarrow> int \<Rightarrow> int \<Rightarrow> int \<Rightarrow> int \<Rightarrow> int \<Rightarrow> (int \<Rightarrow> 'a) \<Rightarrow> (int \<Rightarrow> 'a)" where
  "gcy n nx ny g00 g01 g10 g11 F =
     for_loop (- g00) (nx + g01) (\<lambda>i. for_loop (- g10) g11 (\<lambda>j. assign (gcy_dst n ny i j) (gcy_src n ny i j))) F"

lemma gc_y_openacc_pair:
  "emf_update_gc_openacc_y emf (E0, B0) =
     (gcy (nrow emf) (nx0 emf) (nx1 emf) (gc00 emf) (gc01 emf) (gc10 emf) (gc11 emf) E0,
      gcy (nrow emf) (nx0 emf) (nx1 emf) (gc00 emf) (gc01 emf) (gc10 emf) (gc11 emf) B0)"
  unfolding emf_update_gc_openacc_y_def gcy_def for_loop_fold' fold_pairs
  by (rule fold_prod') (simp add: copy_fld_eq gcy_dst_def gcy_src_def split: prod.splits)

lemma gcy_cell:
  fixes F :: "int \<Rightarrow> 'a"
  assumes n: "n = g00 + nx + g01" and g: "0 \<le> g10" "g10 \<le> ny" "0 \<le> g11" "g11 \<le> ny"
    and i: "- g00 \<le> i" "i < nx + g01"
  shows "gcy n nx ny g00 g01 g10 g11 F (i + j * n) =
     (if - g10 \<le> j \<and> j < 0 then F (i + (ny + j) * n)
      else if ny \<le> j \<and> j < ny + g11 then F (i + (j - ny) * n)
      else F (i + j * n))"
proof -
  let ?dst = "\<lambda>j i. gcy_dst n ny i j" and ?src = "\<lambda>j i. gcy_src n ny i j"
  have uniq: "a + b * n = a' + b' * n \<longleftrightarrow> a = a' \<and> b = b'"
    if "- g00 \<le> a" "a < nx + g01" "- g00 \<le> a'" "a' < nx + g01" for a b a' b'
    using idx_unique [of g00 a n a' b b'] that n by auto
  have dst_row: "\<exists>b. (- g10 \<le> b \<and> b < 0 \<or> ny \<le> b \<and> b < ny + g11) \<and> gcy_dst n ny i' j' = i' + b * n"
    if "- g10 \<le> j'" "j' < g11" for i' j'
  proof (cases "j' < 0")
    case True
    then show ?thesis using that by (intro exI [of _ j']) (simp add: gcy_dst_def)
  next
    case False
    then show ?thesis using that by (intro exI [of _ "ny + j'"]) (simp add: gcy_dst_def)
  qed
  have src_row: "\<exists>b. 0 \<le> b \<and> b < ny \<and> gcy_src n ny i' j' = i' + b * n"
    if "- g10 \<le> j'" "j' < g11" for i' j'
  proof (cases "j' < 0")
    case True
    then show ?thesis using that g by (intro exI [of _ "ny + j'"]) (simp add: gcy_src_def)
  next
    case False
    then show ?thesis using that g by (intro exI [of _ j']) (simp add: gcy_src_def)
  qed
  have disj: "gcy_src n ny i' j' \<noteq> gcy_dst n ny i'' j''"
    if h: "- g10 \<le> j'" "j' < g11" "- g10 \<le> j''" "j'' < g11"
      and c: "- g00 \<le> i'" "i' < nx + g01" "- g00 \<le> i''" "i'' < nx + g01" for i' j' i'' j''
  proof -
    obtain b where b: "0 \<le> b" "b < ny" "gcy_src n ny i' j' = i' + b * n"
      using src_row [OF h(1,2)] by blast
    obtain d where d: "- g10 \<le> d \<and> d < 0 \<or> ny \<le> d \<and> d < ny + g11" "gcy_dst n ny i'' j'' = i'' + d * n"
      using dst_row [OF h(3,4)] by blast
    have "i' + b * n \<noteq> i'' + d * n"
      using uniq [OF c, of b d] b d by auto
    then show ?thesis using b d by simp
  qed
  have inj: "gcy_src n ny i' j' = gcy_src n ny i'' j''"
    if "- g10 \<le> j'" "j' < g11" "- g10 \<le> j''" "j'' < g11"
      and c: "- g00 \<le> i'" "i' < nx + g01" "- g00 \<le> i''" "i'' < nx + g01"
      and e: "gcy_dst n ny i' j' = gcy_dst n ny i'' j''" for i' j' i'' j''
  proof -
    have "i' = i'' \<and> j' = j''"
      using that(1-4) uniq [OF c, of "if j' < 0 then j' else ny + j'" "if j'' < 0 then j'' else ny + j''"] g e
      by (auto simp: gcy_dst_def split: if_splits)
    then show ?thesis by simp
  qed
  consider (lo) "- g10 \<le> j \<and> j < 0" | (hi) "ny \<le> j \<and> j < ny + g11"
    | (no) "\<not> (- g10 \<le> j \<and> j < 0)" "\<not> (ny \<le> j \<and> j < ny + g11)" by blast
  then show ?thesis
  proof cases
    case lo
    have r: "- g10 \<le> j" "j < g11" "- g00 \<le> i" "i < nx + g01" using lo i g by auto
    have "gcy n nx ny g00 g01 g10 g11 F (?dst j i) = F (?src j i)"
      unfolding gcy_def
    proof (rule nested_copies_at [where dst = ?dst and src = ?src, OF r])
      fix i' j' assume a: "- g10 \<le> i'" "i' < g11" "- g00 \<le> j'" "j' < nx + g01"
        and e: "gcy_dst n ny j' i' = gcy_dst n ny i j"
      show "gcy_src n ny j' i' = gcy_src n ny i j"
        by (rule inj [OF a(1,2) r(1,2) a(3,4) r(3,4) e])
    next
      fix i' j' i'' j'' assume b: "- g10 \<le> i'" "i' < g11" "- g00 \<le> j'" "j' < nx + g01"
        "- g10 \<le> i''" "i'' < g11" "- g00 \<le> j''" "j'' < nx + g01"
      show "gcy_src n ny j' i' \<noteq> gcy_dst n ny j'' i''"
        by (rule disj [OF b(1,2) b(5,6) b(3,4) b(7,8)])
    qed
    then show ?thesis using lo by (simp add: gcy_dst_def gcy_src_def)
  next
    case hi
    have r: "- g10 \<le> j - ny" "j - ny < g11" "- g00 \<le> i" "i < nx + g01" using hi i g by auto
    have "gcy n nx ny g00 g01 g10 g11 F (?dst (j - ny) i) = F (?src (j - ny) i)"
      unfolding gcy_def
    proof (rule nested_copies_at [where dst = ?dst and src = ?src, OF r])
      fix i' j' assume a: "- g10 \<le> i'" "i' < g11" "- g00 \<le> j'" "j' < nx + g01"
        and e: "gcy_dst n ny j' i' = gcy_dst n ny i (j - ny)"
      show "gcy_src n ny j' i' = gcy_src n ny i (j - ny)"
        by (rule inj [OF a(1,2) r(1,2) a(3,4) r(3,4) e])
    next
      fix i' j' i'' j'' assume b: "- g10 \<le> i'" "i' < g11" "- g00 \<le> j'" "j' < nx + g01"
        "- g10 \<le> i''" "i'' < g11" "- g00 \<le> j''" "j'' < nx + g01"
      show "gcy_src n ny j' i' \<noteq> gcy_dst n ny j'' i''"
        by (rule disj [OF b(1,2) b(5,6) b(3,4) b(7,8)])
    qed
    then show ?thesis using hi g by (simp add: gcy_dst_def gcy_src_def)
  next
    case no
    have "gcy n nx ny g00 g01 g10 g11 F (i + j * n) = F (i + j * n)"
      unfolding gcy_def
    proof (rule nested_copies_other [where dst = ?dst and src = ?src])
      fix j' i' assume a: "- g10 \<le> j'" "j' < g11" "- g00 \<le> i'" "i' < nx + g01"
      obtain d where d: "- g10 \<le> d \<and> d < 0 \<or> ny \<le> d \<and> d < ny + g11" "gcy_dst n ny i' j' = i' + d * n"
        using dst_row [OF a(1,2)] by blast
      show "gcy_dst n ny i' j' \<noteq> i + j * n"
        using uniq [OF a(3,4) i, of d j] d no by auto
    qed
    then show ?thesis using no by auto
  qed
qed

lemma emf_update_gc_openacc_eq:
  "emf_update_gc_openacc emf =
     (let Y = gcy (nrow emf) (nx0 emf) (nx1 emf) (gc00 emf) (gc01 emf) (gc10 emf) (gc11 emf);
          X = gcx (nrow emf) (nx0 emf) (nx1 emf) (gc00 emf) (gc01 emf) (gc10 emf) (gc11 emf)
      in if moving_window emf then emf\<lparr>E := Y (E emf), B := Y (B emf)\<rparr>
         else emf\<lparr>E := Y (X (E emf)), B := Y (X (B emf))\<rparr>)"
  by (simp add: emf_update_gc_openacc_def emf_update_gc_openacc_x_eq gc_y_openacc_pair Let_def)

definition wrap_y :: "t_emf \<Rightarrow> int \<Rightarrow> int" where
  "wrap_y emf j = (if j < 0 then j + nx1 emf else if nx1 emf \<le> j then j - nx1 emf else j)"

lemma gcy_row:
  fixes F :: grid
  assumes "nrow emf = nx0 emf + 3" "gc00 emf = 1" "gc01 emf = 2"
    and "0 \<le> gc10 emf" "gc10 emf \<le> nx1 emf" "0 \<le> gc11 emf" "gc11 emf \<le> nx1 emf"
    and "- gc10 emf \<le> j" "j < nx1 emf + gc11 emf" "- 1 \<le> i" "i < nx0 emf + 2"
  shows "gcy (nrow emf) (nx0 emf) (nx1 emf) (gc00 emf) (gc01 emf) (gc10 emf) (gc11 emf) F (i + j * nrow emf)
         = F (i + wrap_y emf j * nrow emf)"
proof -
  have "gcy (nrow emf) (nx0 emf) (nx1 emf) 1 2 (gc10 emf) (gc11 emf) F (i + j * nrow emf) =
     (if - gc10 emf \<le> j \<and> j < 0 then F (i + (nx1 emf + j) * nrow emf)
      else if nx1 emf \<le> j \<and> j < nx1 emf + gc11 emf then F (i + (j - nx1 emf) * nrow emf)
      else F (i + j * nrow emf))"
    by (rule gcy_cell) (use assms in auto)
  then show ?thesis using assms by (simp add: wrap_y_def add.commute)
qed

lemma gcx_interior:
  fixes F :: grid
  assumes "nrow emf = nx0 emf + 3" "2 \<le> nx0 emf" "0 \<le> i" "i < nx0 emf"
  shows "gcx (nrow emf) (nx0 emf) ny 1 2 g10 g11 F (i + j * nrow emf) = F (i + j * nrow emf)"
  using gcx_cell [of "nrow emf" 1 "nx0 emf" 2 i ny g10 g11 F j] assms by simp

lemma periodic_x_rows:
  assumes "\<And>i. - 1 \<le> i \<Longrightarrow> i < nx0 emf + 2 \<Longrightarrow> G (i + j * nrow emf) = F (i + r * nrow emf)"
    and "2 \<le> nx0 emf" and "periodic_x emf F r"
  shows "periodic_x emf G j"
proof -
  have "G (- 1 + j * nrow emf) = F (- 1 + r * nrow emf)" by (rule assms(1)) (use assms(2) in auto)
  moreover have "G (nx0 emf - 1 + j * nrow emf) = F (nx0 emf - 1 + r * nrow emf)"
    by (rule assms(1)) (use assms(2) in auto)
  moreover have "G (nx0 emf + j * nrow emf) = F (nx0 emf + r * nrow emf)"
    by (rule assms(1)) (use assms(2) in auto)
  moreover have "G (0 + j * nrow emf) = F (0 + r * nrow emf)"
    by (rule assms(1)) (use assms(2) in auto)
  moreover have "G (nx0 emf + 1 + j * nrow emf) = F (nx0 emf + 1 + r * nrow emf)"
    by (rule assms(1)) (use assms(2) in auto)
  moreover have "G (1 + j * nrow emf) = F (1 + r * nrow emf)"
    by (rule assms(1)) (use assms(2) in auto)
  ultimately show ?thesis using assms(3) unfolding periodic_x_def by simp
qed

lemma wrap_y_range:
  assumes "0 \<le> gc10 emf" "gc10 emf \<le> nx1 emf" "0 \<le> gc11 emf" "gc11 emf \<le> nx1 emf"
    and "- gc10 emf \<le> j" "j < nx1 emf + gc11 emf"
  shows "- gc10 emf \<le> wrap_y emf j" "wrap_y emf j < nx1 emf + gc11 emf"
  using assms by (auto simp: wrap_y_def)

text \<open>
  C6 (as amended).  On a grid with guard cells \<open>gc[0] = {1, 2}\<close>, rows of \<open>nx[0] + 3\<close> cells,
  at least two interior columns and no more guard rows on either side than interior rows,
  and for every row \<open>j\<close> of the buffer (\<open>- gc[1][0] \<le> j < nx[1] + gc[1][1]\<close>):
  \<^item> When the window does not move, after \<open>emf_update_gc_x\<close> and after the whole of
    \<open>emf_update_gc_openacc\<close> (x nest, then y nest) both \<open>E\<close> and \<open>B\<close> satisfy
    \<open>F[-1,j] = F[nx[0]-1,j]\<close>, \<open>F[nx[0],j] = F[0,j]\<close> and \<open>F[nx[0]+1,j] = F[1,j]\<close> (as whole
    cells, so for each component).  The interior columns of the row keep their values under
    \<open>emf_update_gc_x\<close>; under \<open>emf_update_gc_openacc\<close> they hold the values of the row
    \<open>wrap_y j\<close>, which is \<open>j\<close> itself for an interior row and its periodic image for a guard row.
  \<^item> When the window moves, \<open>emf_update_gc_x\<close> changes nothing, and
    \<open>emf_update_gc_openacc\<close> leaves every cell of an interior row, its x guard cells included,
    untouched; in a y guard row every cell, x guard cells included, receives the cell of the
    same column in the row \<open>wrap_y j\<close>.
  \<^item> \<open>emf_update_gc_x_openacc\<close>, which \<open>emf_advance_openacc\<close> calls only when the window does not
    move, establishes the same three equalities.
\<close>

theorem gc_x_periodic:
  assumes shape: "nrow emf = nx0 emf + 3" "gc00 emf = 1" "gc01 emf = 2" "2 \<le> nx0 emf"
    and y: "0 \<le> gc10 emf" "gc10 emf \<le> nx1 emf" "0 \<le> gc11 emf" "gc11 emf \<le> nx1 emf"
    and j: "- gc10 emf \<le> j" "j < nx1 emf + gc11 emf"
  shows "(if moving_window emf
          then emf_update_gc_x emf = emf
             \<and> (\<forall>i. - 1 \<le> i \<and> i < nx0 emf + 2 \<longrightarrow>
                    E (emf_update_gc_openacc emf) (i + j * nrow emf) = E emf (i + wrap_y emf j * nrow emf)
                  \<and> B (emf_update_gc_openacc emf) (i + j * nrow emf) = B emf (i + wrap_y emf j * nrow emf))
          else periodic_x emf (E (emf_update_gc_x emf)) j
             \<and> periodic_x emf (B (emf_update_gc_x emf)) j
             \<and> periodic_x emf (E (emf_update_gc_openacc emf)) j
             \<and> periodic_x emf (B (emf_update_gc_openacc emf)) j
             \<and> (\<forall>i. 0 \<le> i \<and> i < nx0 emf \<longrightarrow>
                    E (emf_update_gc_x emf) (i + j * nrow emf) = E emf (i + j * nrow emf)
                  \<and> B (emf_update_gc_x emf) (i + j * nrow emf) = B emf (i + j * nrow emf)
                  \<and> E (emf_update_gc_openacc emf) (i + j * nrow emf) = E emf (i + wrap_y emf j * nrow emf)
                  \<and> B (emf_update_gc_openacc emf) (i + j * nrow emf) = B emf (i + wrap_y emf j * nrow emf)))
       \<and> periodic_x emf (fst (emf_update_gc_x_openacc (E emf) (B emf) (nrow emf) (nx0 emf)
            (nx1 emf) (gc00 emf) (gc01 emf) (gc10 emf) (gc11 emf))) j
       \<and> periodic_x emf (snd (emf_update_gc_x_openacc (E emf) (B emf) (nrow emf) (nx0 emf)
            (nx1 emf) (gc00 emf) (gc01 emf) (gc10 emf) (gc11 emf))) j"
proof -
  let ?X = "gcx (nrow emf) (nx0 emf) (nx1 emf) 1 2 (gc10 emf) (gc11 emf) :: grid \<Rightarrow> grid"
  let ?Y = "gcy (nrow emf) (nx0 emf) (nx1 emf) 1 2 (gc10 emf) (gc11 emf) :: grid \<Rightarrow> grid"
  have p: "periodic_x emf (?X F) r" if "- gc10 emf \<le> r" "r < nx1 emf + gc11 emf" for F r
    by (rule gcx_periodic) (use shape that in auto)
  have row: "?Y F (i + j * nrow emf) = F (i + wrap_y emf j * nrow emf)"
    if "- 1 \<le> i" "i < nx0 emf + 2" for F i
    using gcy_row [OF shape(1-3) y j that, of F] shape(2,3) by simp
  have wr: "- gc10 emf \<le> wrap_y emf j" "wrap_y emf j < nx1 emf + gc11 emf"
    by (rule wrap_y_range [OF y j])+
  have py: "periodic_x emf (?Y (?X F)) j" for F
    by (rule periodic_x_rows [where F = "?X F" and r = "wrap_y emf j"])
       (use row shape(4) p [OF wr] in auto)
  have int_x: "?X F (i + r * nrow emf) = F (i + r * nrow emf)" if "0 \<le> i" "i < nx0 emf" for F i r
    by (rule gcx_interior [OF shape(1,4) that])
  have acc: "periodic_x emf (fst (emf_update_gc_x_openacc (E emf) (B emf) (nrow emf) (nx0 emf)
            (nx1 emf) (gc00 emf) (gc01 emf) (gc10 emf) (gc11 emf))) j
       \<and> periodic_x emf (snd (emf_update_gc_x_openacc (E emf) (B emf) (nrow emf) (nx0 emf)
            (nx1 emf) (gc00 emf) (gc01 emf) (gc10 emf) (gc11 emf))) j"
    using p [OF j] shape(2,3) by (simp add: gc_x_openacc_pair)
  show ?thesis
  proof (cases "moving_window emf")
    case True
    have "emf_update_gc_x emf = emf" using True by (simp add: emf_update_gc_x_def)
    moreover have "E (emf_update_gc_openacc emf) = ?Y (E emf)" "B (emf_update_gc_openacc emf) = ?Y (B emf)"
      using True shape(2,3) by (simp_all add: emf_update_gc_openacc_eq Let_def)
    ultimately show ?thesis using True acc row by simp
  next
    case False
    have gx: "E (emf_update_gc_x emf) = ?X (E emf)" "B (emf_update_gc_x emf) = ?X (B emf)"
      using False shape(2,3) by (simp_all add: emf_update_gc_x_eq)
    have gy: "E (emf_update_gc_openacc emf) = ?Y (?X (E emf))" "B (emf_update_gc_openacc emf) = ?Y (?X (B emf))"
      using False shape(2,3) by (simp_all add: emf_update_gc_openacc_eq Let_def)
    have cells: "\<forall>i. 0 \<le> i \<and> i < nx0 emf \<longrightarrow>
                    ?X (E emf) (i + j * nrow emf) = E emf (i + j * nrow emf)
                  \<and> ?X (B emf) (i + j * nrow emf) = B emf (i + j * nrow emf)
                  \<and> ?Y (?X (E emf)) (i + j * nrow emf) = E emf (i + wrap_y emf j * nrow emf)
                  \<and> ?Y (?X (B emf)) (i + j * nrow emf) = B emf (i + wrap_y emf j * nrow emf)"
      using int_x row by simp
    show ?thesis
      unfolding gx gy using False acc p [OF j] py cells by (simp only: simp_thms if_False)
  qed
qed

text \<open>
  Instances on \<open>emf_ex2\<close> (two interior columns and rows): row \<open>0\<close> and the guard row \<open>-1\<close>
  without the moving window, the interior row \<open>1\<close> with it.
\<close>

theorem gc_x_periodic_witness:
  "periodic_x emf_ex2 (E (emf_update_gc_x emf_ex2)) 0
   \<and> periodic_x emf_ex2 (B (emf_update_gc_x emf_ex2)) 0
   \<and> periodic_x emf_ex2 (E (emf_update_gc_openacc emf_ex2)) (- 1)
   \<and> periodic_x emf_ex2 (B (emf_update_gc_openacc emf_ex2)) (- 1)
   \<and> emf_update_gc_x (emf_ex2\<lparr>moving_window := True\<rparr>) = emf_ex2\<lparr>moving_window := True\<rparr>
   \<and> E (emf_update_gc_openacc (emf_ex2\<lparr>moving_window := True\<rparr>))
         (- 1 + 1 * nrow (emf_ex2\<lparr>moving_window := True\<rparr>))
       = E (emf_ex2\<lparr>moving_window := True\<rparr>) (- 1 + 1 * nrow (emf_ex2\<lparr>moving_window := True\<rparr>))"
proof -
  let ?w = "emf_ex2\<lparr>moving_window := True\<rparr>"
  have s: "nrow emf_ex2 = nx0 emf_ex2 + 3" "gc00 emf_ex2 = 1" "gc01 emf_ex2 = 2" "2 \<le> nx0 emf_ex2"
    "0 \<le> gc10 emf_ex2" "gc10 emf_ex2 \<le> nx1 emf_ex2" "0 \<le> gc11 emf_ex2" "gc11 emf_ex2 \<le> nx1 emf_ex2"
    by (simp_all add: emf_ex2_def)
  have w: "nrow ?w = nx0 ?w + 3" "gc00 ?w = 1" "gc01 ?w = 2" "2 \<le> nx0 ?w"
    "0 \<le> gc10 ?w" "gc10 ?w \<le> nx1 ?w" "0 \<le> gc11 ?w" "gc11 ?w \<le> nx1 ?w"
    by (simp_all add: emf_ex2_def)
  have m: "\<not> moving_window emf_ex2" "moving_window ?w" by (simp_all add: emf_ex2_def)
  have j0: "- gc10 emf_ex2 \<le> 0" "0 < nx1 emf_ex2 + gc11 emf_ex2"
    and j1: "- gc10 emf_ex2 \<le> - 1" "- 1 < nx1 emf_ex2 + gc11 emf_ex2"
    and j2: "- gc10 ?w \<le> 1" "1 < nx1 ?w + gc11 ?w"
    by (simp_all add: emf_ex2_def)
  have wy: "wrap_y ?w 1 = 1" by (simp add: wrap_y_def emf_ex2_def)
  have a: "periodic_x emf_ex2 (E (emf_update_gc_x emf_ex2)) 0
         \<and> periodic_x emf_ex2 (B (emf_update_gc_x emf_ex2)) 0"
    using gc_x_periodic [OF s j0] m(1) by (simp only: if_False simp_thms)
  have b: "periodic_x emf_ex2 (E (emf_update_gc_openacc emf_ex2)) (- 1)
         \<and> periodic_x emf_ex2 (B (emf_update_gc_openacc emf_ex2)) (- 1)"
    using gc_x_periodic [OF s j1] m(1) by (simp only: if_False simp_thms)
  have c: "emf_update_gc_x ?w = ?w
      \<and> (\<forall>i. - 1 \<le> i \<and> i < nx0 ?w + 2 \<longrightarrow>
            E (emf_update_gc_openacc ?w) (i + 1 * nrow ?w) = E ?w (i + wrap_y ?w 1 * nrow ?w)
          \<and> B (emf_update_gc_openacc ?w) (i + 1 * nrow ?w) = B ?w (i + wrap_y ?w 1 * nrow ?w))"
    using gc_x_periodic [OF w j2] m(2) by (simp only: if_True simp_thms, blast)
  have "- 1 \<le> (- 1 :: int) \<and> - 1 < nx0 ?w + 2" using w(4) by simp
  with c have "E (emf_update_gc_openacc ?w) (- 1 + 1 * nrow ?w) = E ?w (- 1 + wrap_y ?w 1 * nrow ?w)"
    by blast
  then show ?thesis using a b c unfolding wy by (simp only: simp_thms)
qed

text \<open>
  The claim as stated fails for \<open>emf_update_gc_openacc\<close> in moving-window mode: its y nest
  runs over all columns, so the x guard cell \<open>(-1, -1)\<close> of \<open>emf_ex2\<close> is overwritten with the
  cell \<open>(-1, 1)\<close>.
\<close>

theorem gc_corner_counterexample:
  "moving_window (emf_ex2\<lparr>moving_window := True\<rparr>)
   \<and> E (emf_ex2\<lparr>moving_window := True\<rparr>) (- 1 + (- 1) * 5) = \<lparr>vx = - 6, vy = 0, vz = 1\<rparr>
   \<and> E (emf_update_gc_openacc (emf_ex2\<lparr>moving_window := True\<rparr>)) (- 1 + (- 1) * 5)
       = \<lparr>vx = 4, vy = 0, vz = 1\<rparr>"
proof -
  let ?e = "emf_ex2\<lparr>moving_window := True\<rparr>"
  have "gcy (nrow ?e) (nx0 ?e) (nx1 ?e) (gc00 ?e) (gc01 ?e) (gc10 ?e) (gc11 ?e) (E ?e) (- 1 + (- 1) * nrow ?e)
         = E ?e (- 1 + wrap_y ?e (- 1) * nrow ?e)"
    by (rule gcy_row) (simp_all add: emf_ex2_def)
  then show ?thesis
    by (simp add: emf_update_gc_openacc_eq Let_def emf_ex2_def wrap_y_def)
qed

section \<open>The moving window\<close>

text \<open>
  \<open>yee_steps\<close> and \<open>yee_steps2\<close> name the state that \<open>emf_advance_openacc\<close> (of the first
  and of the second solver) has reached when it decides whether the window moves.
\<close>

definition yee_steps :: "t_emf \<Rightarrow> t_current \<Rightarrow> t_emf" where
  "yee_steps emf cur =
     (let dt_dx = dt emf / dx0 emf; dt_dy = dt emf / dx1 emf;
          B1 = yee_b_openacc (B emf) (E emf) (dt_dx / 2) (dt_dy / 2) (nrow emf) (nx0 emf) (nx1 emf);
          E1 = yee_e_openacc B1 (E emf) (J cur) dt_dx dt_dy (dt emf) (nrow emf) (nrow_j cur)
                 (nx0 emf) (nx1 emf);
          B2 = yee_b_openacc B1 E1 (dt_dx / 2) (dt_dy / 2) (nrow emf) (nx0 emf) (nx1 emf)
      in emf\<lparr>E := E1, B := B2, iter := iter emf + 1\<rparr>)"

definition yee_steps2 :: "t_emf \<Rightarrow> t_current \<Rightarrow> t_emf" where
  "yee_steps2 emf cur =
     (let emf1 = yee_b_openacc2 emf (dt emf / 2);
          emf2 = yee_e_openacc2 emf1 cur (dt emf);
          emf3 = yee_b_openacc2 emf2 (dt emf / 2);
          emf4 = emf_update_gc_openacc emf3
      in emf4\<lparr>iter := iter emf4 + 1\<rparr>)"

definition window_due :: "t_emf \<Rightarrow> bool" where
  "window_due emf \<longleftrightarrow>
     f32 (f32 (real_of_int (iter emf)) * dt emf) > f32 (dx0 emf * f32 (real_of_int (n_move emf + 1)))"

lemma to_of_buf [simp]: "to_buf off (of_buf off F) = F" "of_buf off (to_buf off F) = F"
  by (simp_all add: to_buf_def of_buf_def)

lemma yee_steps_fields [simp]:
  "nrow (yee_steps emf cur) = nrow emf" "nx0 (yee_steps emf cur) = nx0 emf"
  "nx1 (yee_steps emf cur) = nx1 emf" "gc00 (yee_steps emf cur) = gc00 emf"
  "gc01 (yee_steps emf cur) = gc01 emf" "gc10 (yee_steps emf cur) = gc10 emf"
  "gc11 (yee_steps emf cur) = gc11 emf" "dx0 (yee_steps emf cur) = dx0 emf"
  "dt (yee_steps emf cur) = dt emf" "n_move (yee_steps emf cur) = n_move emf"
  "iter (yee_steps emf cur) = iter emf + 1"
  "moving_window (yee_steps emf cur) = moving_window emf"
  by (simp_all add: yee_steps_def Let_def)

lemma gc_openacc_fields [simp]:
  "nrow (emf_update_gc_openacc emf) = nrow emf" "nx0 (emf_update_gc_openacc emf) = nx0 emf"
  "nx1 (emf_update_gc_openacc emf) = nx1 emf" "gc00 (emf_update_gc_openacc emf) = gc00 emf"
  "gc01 (emf_update_gc_openacc emf) = gc01 emf" "gc10 (emf_update_gc_openacc emf) = gc10 emf"
  "gc11 (emf_update_gc_openacc emf) = gc11 emf" "dx0 (emf_update_gc_openacc emf) = dx0 emf"
  "dt (emf_update_gc_openacc emf) = dt emf" "n_move (emf_update_gc_openacc emf) = n_move emf"
  "iter (emf_update_gc_openacc emf) = iter emf"
  "moving_window (emf_update_gc_openacc emf) = moving_window emf"
  by (simp_all add: emf_update_gc_openacc_def case_prod_unfold Let_def)

lemma yee_steps2_fields [simp]:
  "nrow (yee_steps2 emf cur) = nrow emf" "nx0 (yee_steps2 emf cur) = nx0 emf"
  "nx1 (yee_steps2 emf cur) = nx1 emf" "gc00 (yee_steps2 emf cur) = gc00 emf"
  "gc01 (yee_steps2 emf cur) = gc01 emf" "gc10 (yee_steps2 emf cur) = gc10 emf"
  "gc11 (yee_steps2 emf cur) = gc11 emf" "dx0 (yee_steps2 emf cur) = dx0 emf"
  "dt (yee_steps2 emf cur) = dt emf" "n_move (yee_steps2 emf cur) = n_move emf"
  "iter (yee_steps2 emf cur) = iter emf + 1"
  "moving_window (yee_steps2 emf cur) = moving_window emf"
  by (simp_all add: yee_steps2_def yee_b_openacc2_def yee_e_openacc2_def Let_def)

lemma emf_advance_openacc_window:
  assumes "moving_window emf"
  shows "emf_advance_openacc lbs emf cur =
     (let Y = yee_steps emf cur in
      if window_due Y then
        (let EB = emf_move_window_openacc lbs (E_buf Y) (B_buf Y) (nrow emf)
                     (gc00 emf) (gc01 emf) (gc10 emf) (gc11 emf) (nx0 emf) (nx1 emf)
         in Y\<lparr>n_move := n_move emf + 1, E := of_buf (buf_offset emf) (fst EB),
               B := of_buf (buf_offset emf) (snd EB)\<rparr>)
      else Y)"
  using assms
  by (simp add: emf_advance_openacc_def yee_steps_def window_due_def Let_def case_prod_unfold
      E_buf_def B_buf_def buf_offset_def)

lemma emf_advance_openacc2_window:
  assumes "moving_window emf"
  shows "emf_advance_openacc2 emf cur = emf_move_window_openacc2 (yee_steps2 emf cur)"
  using assms
  by (simp add: emf_advance_openacc2_def yee_steps2_def Let_def yee_b_openacc2_def yee_e_openacc2_def)

lemma emf_move_window_openacc2_cells:
  assumes "0 \<le> c" "c < nrow Y" "0 \<le> r" "r < gc10 Y + nx1 Y + gc11 Y"
  shows "(window_due Y \<longrightarrow>
           n_move (emf_move_window_openacc2 Y) = n_move Y + 1
           \<and> E_buf (emf_move_window_openacc2 Y) (c + r * nrow Y)
               = shifted (nrow Y) (gc00 Y) (nx0 Y) (E_buf Y) c r
           \<and> B_buf (emf_move_window_openacc2 Y) (c + r * nrow Y)
               = shifted (nrow Y) (gc00 Y) (nx0 Y) (B_buf Y) c r)
         \<and> (\<not> window_due Y \<longrightarrow> emf_move_window_openacc2 Y = Y)"
proof -
  obtain Er Br where loops: "for_loop 0 (gc10 Y + nx1 Y + gc11 Y) (\<lambda>j.
                 for_loop 0 (nrow Y) (\<lambda>i (E1, B1).
                   if i < gc00 Y + nx0 Y - 1 then
                     (E1(i + j * nrow Y := E_buf Y (i + j * nrow Y + 1)),
                      B1(i + j * nrow Y := B_buf Y (i + j * nrow Y + 1)))
                   else
                     (E1(i + j * nrow Y := zero_fld), B1(i + j * nrow Y := zero_fld))))
                 (E_buf Y, B_buf Y) = (Er, Br)"
    using prod.exhaust by blast
  have B: "Er (c + r * nrow Y) = shifted (nrow Y) (gc00 Y) (nx0 Y) (E_buf Y) c r"
          "Br (c + r * nrow Y) = shifted (nrow Y) (gc00 Y) (nx0 Y) (B_buf Y) c r"
    using move_window2_loops [OF assms(1,2) loops, of r] assms(3,4) by simp_all
  have res: "emf_move_window_openacc2 Y =
      (if window_due Y
       then Y\<lparr>E := of_buf (buf_offset Y) Er, B := of_buf (buf_offset Y) Br,
              n_move := n_move Y + 1\<rparr>
       else Y)"
    unfolding emf_move_window_openacc2_def window_due_def Let_def loops by simp
  have bufs: "E_buf (Y\<lparr>E := of_buf (buf_offset Y) Er, B := of_buf (buf_offset Y) Br,
              n_move := n_move Y + 1\<rparr>) = Er"
     "B_buf (Y\<lparr>E := of_buf (buf_offset Y) Er, B := of_buf (buf_offset Y) Br,
              n_move := n_move Y + 1\<rparr>) = Br"
    by (simp_all add: E_buf_def B_buf_def buf_offset_def)
  show ?thesis
    unfolding res using B bufs by simp
qed

text \<open>
  C5 (as amended).  With the moving window enabled, \<open>emf_advance\<close> first takes the Yee steps
  and counts the iteration (\<open>yee_steps\<close>); the window is due (\<open>window_due\<close>) when the
  single-precision product \<open>iter * dt\<close> exceeds the single-precision product
  \<open>dx[0] * (n_move + 1)\<close> for the iteration just counted: both products are rounded to
  \<open>float\<close> before they are compared.  If the window is due, \<open>n_move\<close> grows by one and every
  row of the \<open>E\<close> and \<open>B\<close> buffers is shifted left by one cell: column \<open>c\<close> receives the
  content of column \<open>c + 1\<close>, and the columns from the last interior one on are zeroed
  (\<open>shifted\<close>).  If it is not due, the result is the state after the Yee steps: nothing is
  shifted and \<open>n_move\<close> is unchanged.  Both field solvers behave so.  The counters stay
  inside \<open>int\<close> and the products inside the range of \<open>float\<close>.
\<close>

theorem emf_advance_moving_window:
  assumes "moving_window emf"
    and "nrow emf = gc00 emf + nx0 emf + gc01 emf" "0 \<le> gc01 emf" "0 < lbs"
    and "0 \<le> c" "c < nrow emf" "0 \<le> r" "r < gc10 emf + nx1 emf + gc11 emf"
    and "0 \<le> iter emf" "iter emf + 1 < 2 ^ 31" "0 \<le> n_move emf" "n_move emf + 1 < 2 ^ 31"
    and "\<bar>real_of_int (iter emf + 1) * dt emf\<bar> < 2 ^ 127"
    and "\<bar>dx0 emf * real_of_int (n_move emf + 1)\<bar> < 2 ^ 127"
  shows "(let Y = yee_steps emf cur; emf' = emf_advance_openacc lbs emf cur in
          if window_due Y then
            n_move emf' = n_move emf + 1
            \<and> E_buf emf' (c + r * nrow emf) = shifted (nrow emf) (gc00 emf) (nx0 emf) (E_buf Y) c r
            \<and> B_buf emf' (c + r * nrow emf) = shifted (nrow emf) (gc00 emf) (nx0 emf) (B_buf Y) c r
          else emf' = Y)
       \<and> (let Y = yee_steps2 emf cur; emf' = emf_advance_openacc2 emf cur in
          if window_due Y then
            n_move emf' = n_move emf + 1
            \<and> E_buf emf' (c + r * nrow emf) = shifted (nrow emf) (gc00 emf) (nx0 emf) (E_buf Y) c r
            \<and> B_buf emf' (c + r * nrow emf) = shifted (nrow emf) (gc00 emf) (nx0 emf) (B_buf Y) c r
          else emf' = Y)"
proof -
  let ?Y = "yee_steps emf cur"
  let ?Y2 = "yee_steps2 emf cur"
  have A: "fst (emf_move_window_openacc lbs Eb Bb (nrow emf)
                     (gc00 emf) (gc01 emf) (gc10 emf) (gc11 emf) (nx0 emf) (nx1 emf)) (c + r * nrow emf)
           = shifted (nrow emf) (gc00 emf) (nx0 emf) Eb c r"
          "snd (emf_move_window_openacc lbs Eb Bb (nrow emf)
                     (gc00 emf) (gc01 emf) (gc10 emf) (gc11 emf) (nx0 emf) (nx1 emf)) (c + r * nrow emf)
           = shifted (nrow emf) (gc00 emf) (nx0 emf) Bb c r" for Eb Bb
    using move_window_cells [OF assms(4,2,3,5,6), of Eb Bb "gc10 emf" "gc11 emf" "nx1 emf" r] assms(7,8)
    by simp_all
  have first: "(let Y = yee_steps emf cur; emf' = emf_advance_openacc lbs emf cur in
          if window_due Y then
            n_move emf' = n_move emf + 1
            \<and> E_buf emf' (c + r * nrow emf) = shifted (nrow emf) (gc00 emf) (nx0 emf) (E_buf Y) c r
            \<and> B_buf emf' (c + r * nrow emf) = shifted (nrow emf) (gc00 emf) (nx0 emf) (B_buf Y) c r
          else emf' = Y)"
    unfolding emf_advance_openacc_window [OF assms(1)]
    by (simp add: Let_def E_buf_def B_buf_def buf_offset_def A)
  have second: "(let Y = yee_steps2 emf cur; emf' = emf_advance_openacc2 emf cur in
          if window_due Y then
            n_move emf' = n_move emf + 1
            \<and> E_buf emf' (c + r * nrow emf) = shifted (nrow emf) (gc00 emf) (nx0 emf) (E_buf Y) c r
            \<and> B_buf emf' (c + r * nrow emf) = shifted (nrow emf) (gc00 emf) (nx0 emf) (B_buf Y) c r
          else emf' = Y)"
    unfolding emf_advance_openacc2_window [OF assms(1)]
    using emf_move_window_openacc2_cells [of c ?Y2 r] assms(5-8)
    by (simp add: Let_def)
  show ?thesis using first second by blast
qed


definition emf_mw :: t_emf where
  "emf_mw = emf_ex2\<lparr>moving_window := True\<rparr>"

definition cur_ex2 :: t_current where
  "cur_ex2 = \<lparr>J = (\<lambda>k. zero_fld), nrow_j = 5\<rparr>"

theorem emf_advance_moving_window_witness:
  "n_move (emf_advance_openacc 2 emf_mw cur_ex2) = 1
   \<and> E_buf (emf_advance_openacc 2 emf_mw cur_ex2) (2 + 1 * 5) = zero_fld
   \<and> n_move (emf_advance_openacc2 emf_mw cur_ex2) = 1
   \<and> B_buf (emf_advance_openacc2 emf_mw cur_ex2) (2 + 1 * 5) = zero_fld"
  using emf_advance_moving_window [of emf_mw 2 2 1 cur_ex2]
  by (simp add: emf_mw_def emf_ex2_def Let_def window_due_def shifted_def)

text \<open>
  The claim as stated, with the exact products, fails at a rounding tie.  Take the \<open>float\<close>
  values \<open>dt = 6710887 / 2 ^ 26\<close> and \<open>dx[0] = 5033165 / 2 ^ 24\<close>, \<open>n_move = 0\<close> and the third
  iteration: \<open>3 * dt\<close> exceeds \<open>dx[0]\<close> by \<open>1 / 2 ^ 26\<close>, but in single precision \<open>3 * dt\<close>
  rounds to \<open>dx[0]\<close>, so neither solver shifts.
\<close>

definition emf_tie :: t_emf where
  "emf_tie = emf_ex2\<lparr>dx0 := 5033165 / 2 ^ 24, dt := 6710887 / 2 ^ 26, iter := 2,
                      moving_window := True\<rparr>"

lemma f32_tie:
  "f32 (20132661 / 67108864) = 5033165 / 16777216"
  "f32 (5033165 / 16777216) = 5033165 / 16777216"
proof -
  have "f32 (20132661 / 67108864)
      = of_int (round_even (20132661 / 67108864 / 2 powi (- 2 - 23))) * 2 powi (- 2 - 23)"
    by (rule f32_eval) (simp_all add: power_int_minus)
  also have "\<dots> = 5033165 / 16777216"
    by (simp add: round_even_def Let_def power_int_minus)
  finally show "f32 (20132661 / 67108864) = 5033165 / 16777216" .
  show "f32 (5033165 / 16777216) = 5033165 / 16777216"
    by (rule f32_exact [where m = 5033165 and e = "- 24"]) (simp_all add: power_int_minus)
qed

theorem emf_advance_rounding_counterexample:
  "moving_window emf_tie
   \<and> real_of_int (iter emf_tie + 1) * dt emf_tie > dx0 emf_tie * real_of_int (n_move emf_tie + 1)
   \<and> emf_advance_openacc 2 emf_tie cur_ex2 = yee_steps emf_tie cur_ex2
   \<and> n_move (emf_advance_openacc 2 emf_tie cur_ex2) = n_move emf_tie
   \<and> emf_advance_openacc2 emf_tie cur_ex2 = yee_steps2 emf_tie cur_ex2
   \<and> n_move (emf_advance_openacc2 emf_tie cur_ex2) = n_move emf_tie"
proof -
  have mw: "moving_window emf_tie" by (simp add: emf_tie_def)
  have ex: "real_of_int (iter emf_tie + 1) * dt emf_tie > dx0 emf_tie * real_of_int (n_move emf_tie + 1)"
    by (simp add: emf_tie_def emf_ex2_def)
  have nd: "\<not> window_due (yee_steps emf_tie cur_ex2)" "\<not> window_due (yee_steps2 emf_tie cur_ex2)"
    by (simp_all add: window_due_def emf_tie_def emf_ex2_def f32_tie)
  have a: "emf_advance_openacc 2 emf_tie cur_ex2 = yee_steps emf_tie cur_ex2"
    unfolding emf_advance_openacc_window [OF mw] using nd(1) by (simp add: Let_def)
  have "emf_move_window_openacc2 (yee_steps2 emf_tie cur_ex2) = yee_steps2 emf_tie cur_ex2"
    using nd(2) by (simp add: emf_move_window_openacc2_def window_due_def)
  then have b: "emf_advance_openacc2 emf_tie cur_ex2 = yee_steps2 emf_tie cur_ex2"
    unfolding emf_advance_openacc2_window [OF mw] .
  show ?thesis
    unfolding a b using mw ex by simp
qed


section \<open>Laser pulses (\<open>emf.c\<close>)\<close>

text \<open>
  \<open>t_emf_laser\<close> (\<open>emf.h\<close>); the member \<open>type\<close> is called \<open>laser_type\<close>.  \<open>atan2\<close> is
  the C library function and \<open>M_PI_2\<close> is \<open>pi / 2\<close>.  A call of \<open>exit\<close> is the result
  \<open>Inl (Exit code message)\<close>, with the message written to \<open>stderr\<close> (without its newline).
\<close>

datatype emf_laser_type = PLANE | GAUSSIAN

record t_emf_laser =
  laser_type :: emf_laser_type
  start :: real
  fwhm :: real
  rise :: real
  flat :: real
  fall :: real
  a0 :: real
  omega0 :: real
  polarization :: real
  W0 :: real
  focus :: real
  axis :: real

definition atan2 :: "real \<Rightarrow> real \<Rightarrow> real" where
  "atan2 y' x' =
     (if 0 < x' then arctan (y' / x')
      else if x' < 0 \<and> 0 \<le> y' then arctan (y' / x') + pi
      else if x' < 0 \<and> y' < 0 then arctan (y' / x') - pi
      else if 0 < y' then pi / 2
      else if y' < 0 then - (pi / 2)
      else 0)"

definition gauss_phase :: "t_emf_laser \<Rightarrow> real \<Rightarrow> real \<Rightarrow> real" where
  "gauss_phase laser z r =
     (let z0 = omega0 laser * (W0 laser * W0 laser) / 2;
          rho2 = r * r;
          curv = rho2 * z / (z0 * z0 + z * z);
          rWl2 = (z0 * z0) / (z0 * z0 + z * z);
          gouy_shift = atan2 z z0
      in sqrt (sqrt rWl2) * exp (- rho2 * rWl2 / (W0 laser * W0 laser))
           * cos (omega0 laser * (z + curv) - gouy_shift))"

definition lon_env :: "t_emf_laser \<Rightarrow> real \<Rightarrow> real" where
  "lon_env laser z =
     (if z > start laser then 0
      else if z > start laser - rise laser then
        (let csi = z - start laser; e = sin (pi / 2 * csi / rise laser) in e * e)
      else if z > start laser - (rise laser + flat laser) then 1
      else if z > start laser - (rise laser + flat laser + fall laser) then
        (let csi = z - (start laser - rise laser - flat laser - fall laser);
             e = sin (pi / 2 * csi / fall laser)
         in e * e)
      else 0)"

text \<open>
  \<open>laser_cell\<close> is the body of the inner loop of \<open>emf_add_laser\<close>: four \<open>+=\<close> statements
  on the cell with index \<open>idx\<close>.  \<open>launch_laser\<close> is the part of the function after the
  validation.
\<close>

definition laser_cell :: "real \<Rightarrow> real \<Rightarrow> real \<Rightarrow> real \<Rightarrow> int \<Rightarrow> grid \<times> grid \<Rightarrow> grid \<times> grid" where
  "laser_cell ey ez by' bz idx EB =
     (let (E1, B1) = EB;
          E2 = E1(idx := (E1 idx)\<lparr>vy := vy (E1 idx) + ey\<rparr>);
          E3 = E2(idx := (E2 idx)\<lparr>vz := vz (E2 idx) + ez\<rparr>);
          B2 = B1(idx := (B1 idx)\<lparr>vy := vy (B1 idx) + by'\<rparr>);
          B3 = B2(idx := (B2 idx)\<lparr>vz := vz (B2 idx) + bz\<rparr>)
      in (E3, B3))"

definition launch_laser :: "t_emf \<Rightarrow> t_emf_laser \<Rightarrow> int \<Rightarrow> t_emf" where
  "launch_laser emf laser offset_y =
     (let nrow' = nrow emf; dx = dx0 emf; dy = dx1 emf;
          r_center = axis laser;
          amp = omega0 laser * a0 laser;
          cos_pol = cos (polarization laser);
          sin_pol = sin (polarization laser);
          (E', B') =
            (case laser_type laser of
               PLANE \<Rightarrow>
                 (let k = omega0 laser in
                  for_loop 0 (nx0 emf) (\<lambda>i EB.
                    let z = real_of_int i * dx; z_2 = z + dx / 2;
                        lenv = amp * lon_env laser z;
                        lenv_2 = amp * lon_env laser z_2
                    in for_loop 0 (nx1 emf) (\<lambda>j.
                         laser_cell (lenv * cos (k * z) * cos_pol) (lenv * cos (k * z) * sin_pol)
                           (- lenv_2 * cos (k * z_2) * sin_pol) (lenv_2 * cos (k * z_2) * cos_pol)
                           (i + j * nrow')) EB) (E emf, B emf))
             | GAUSSIAN \<Rightarrow>
                  for_loop 0 (nx0 emf) (\<lambda>i EB.
                    let z = real_of_int i * dx; z_2 = z + dx / 2;
                        lenv = amp * lon_env laser z;
                        lenv_2 = amp * lon_env laser z_2
                    in for_loop 0 (nx1 emf) (\<lambda>j.
                         let r = real_of_int (j + offset_y) * dy - r_center; r_2 = r + dy / 2 in
                         laser_cell (lenv * gauss_phase laser z r_2 * cos_pol)
                           (lenv * gauss_phase laser z r * sin_pol)
                           (- lenv_2 * gauss_phase laser z_2 r * sin_pol)
                           (lenv_2 * gauss_phase laser z_2 r_2 * cos_pol)
                           (i + j * nrow')) EB) (E emf, B emf))
      in emf\<lparr>E := E', B := B'\<rparr>)"

datatype exit = Exit int string

definition emf_add_laser :: "t_emf \<Rightarrow> t_emf_laser \<Rightarrow> int \<Rightarrow> exit + (t_emf \<times> t_emf_laser)" where
  "emf_add_laser emf laser0 offset_y =
     (if fwhm laser0 \<noteq> 0 \<and> fwhm laser0 \<le> 0 then
        Inl (Exit (- 1) ''Invalid laser FWHM, must be > 0, aborting.'')
      else
        (let laser = (if fwhm laser0 \<noteq> 0
                      then laser0\<lparr>rise := fwhm laser0, fall := fwhm laser0, flat := 0\<rparr>
                      else laser0)
         in if rise laser \<le> 0 then Inl (Exit (- 1) ''Invalid laser RISE, must be > 0, aborting.'')
            else if flat laser < 0 then Inl (Exit (- 1) ''Invalid laser FLAT, must be >= 0, aborting.'')
            else if fall laser \<le> 0 then Inl (Exit (- 1) ''Invalid laser FALL, must be > 0, aborting.'')
            else Inr (launch_laser emf laser offset_y, laser)))"


lemma laser_cell_other:
  "k \<noteq> idx \<Longrightarrow> fst (laser_cell a b c d idx EB) k = fst EB k"
  "k \<noteq> idx \<Longrightarrow> snd (laser_cell a b c d idx EB) k = snd EB k"
  by (simp_all add: laser_cell_def Let_def case_prod_unfold)

lemma laser_cell_vx:
  "vx (fst (laser_cell a b c d idx EB) k) = vx (fst EB k)"
  "vx (snd (laser_cell a b c d idx EB) k) = vx (snd EB k)"
  by (simp_all add: laser_cell_def Let_def case_prod_unfold)

lemma nested_other_proj:
  assumes "\<And>a b s. alo \<le> a \<Longrightarrow> a < ahi \<Longrightarrow> blo \<le> b \<Longrightarrow> b < bhi \<Longrightarrow> \<pi> (cell a b s) m = \<pi> s m"
  shows "\<pi> (for_loop alo ahi (\<lambda>a. for_loop blo bhi (\<lambda>b. cell a b)) s) m = \<pi> s m"
  by (rule for_loop_other_proj, rule for_loop_other_proj) (rule assms)

definition laser_cells :: "t_emf \<Rightarrow> t_emf_laser \<Rightarrow> int \<Rightarrow> int \<Rightarrow> int \<Rightarrow> grid \<times> grid \<Rightarrow> grid \<times> grid" where
  "laser_cells emf laser offset_y i j =
     (let dx = dx0 emf; dy = dx1 emf; amp = omega0 laser * a0 laser;
          cos_pol = cos (polarization laser); sin_pol = sin (polarization laser);
          z = real_of_int i * dx; z_2 = z + dx / 2;
          lenv = amp * lon_env laser z; lenv_2 = amp * lon_env laser z_2;
          r = real_of_int (j + offset_y) * dy - axis laser; r_2 = r + dy / 2
      in case laser_type laser of
           PLANE \<Rightarrow> laser_cell (lenv * cos (omega0 laser * z) * cos_pol)
                      (lenv * cos (omega0 laser * z) * sin_pol)
                      (- lenv_2 * cos (omega0 laser * z_2) * sin_pol)
                      (lenv_2 * cos (omega0 laser * z_2) * cos_pol) (i + j * nrow emf)
         | GAUSSIAN \<Rightarrow> laser_cell (lenv * gauss_phase laser z r_2 * cos_pol)
                           (lenv * gauss_phase laser z r * sin_pol)
                           (- lenv_2 * gauss_phase laser z_2 r * sin_pol)
                           (lenv_2 * gauss_phase laser z_2 r_2 * cos_pol) (i + j * nrow emf))"

lemma launch_laser_loops:
  "launch_laser emf laser offset_y =
     (let EB = for_loop 0 (nx0 emf) (\<lambda>i. for_loop 0 (nx1 emf) (\<lambda>j. laser_cells emf laser offset_y i j))
                 (E emf, B emf)
      in emf\<lparr>E := fst EB, B := snd EB\<rparr>)"
  by (cases "laser_type laser") (simp_all add: launch_laser_def laser_cells_def Let_def case_prod_unfold)

lemma laser_cells_other:
  "k \<noteq> i + j * nrow emf \<Longrightarrow> fst (laser_cells emf laser offset_y i j EB) k = fst EB k"
  "k \<noteq> i + j * nrow emf \<Longrightarrow> snd (laser_cells emf laser offset_y i j EB) k = snd EB k"
  by (cases "laser_type laser"; simp add: laser_cells_def Let_def laser_cell_other)+

lemma laser_cells_vx:
  "vx (fst (laser_cells emf laser offset_y i j EB) k) = vx (fst EB k)"
  "vx (snd (laser_cells emf laser offset_y i j EB) k) = vx (snd EB k)"
  by (cases "laser_type laser"; simp add: laser_cells_def Let_def laser_cell_vx)+

lemma launch_laser_frame:
  assumes "nrow emf = gc00 emf + nx0 emf + gc01 emf" "0 \<le> gc00 emf" "0 \<le> gc01 emf"
  shows "launch_laser emf laser off = emf\<lparr>E := E (launch_laser emf laser off), B := B (launch_laser emf laser off)\<rparr>"
    and "vx (E (launch_laser emf laser off) k) = vx (E emf k)"
    and "vx (B (launch_laser emf laser off) k) = vx (B emf k)"
    and "- gc00 emf \<le> i \<Longrightarrow> i < nx0 emf + gc01 emf \<Longrightarrow>
         \<not> (0 \<le> i \<and> i < nx0 emf \<and> 0 \<le> j \<and> j < nx1 emf) \<Longrightarrow>
         E (launch_laser emf laser off) (i + j * nrow emf) = E emf (i + j * nrow emf)
         \<and> B (launch_laser emf laser off) (i + j * nrow emf) = B emf (i + j * nrow emf)"
proof -
  let ?EB = "for_loop 0 (nx0 emf) (\<lambda>i. for_loop 0 (nx1 emf) (\<lambda>j. laser_cells emf laser off i j)) (E emf, B emf)"
  show "launch_laser emf laser off = emf\<lparr>E := E (launch_laser emf laser off), B := B (launch_laser emf laser off)\<rparr>"
    by (simp add: launch_laser_loops Let_def)
  have "vx (fst ?EB k) = vx (fst (E emf, B emf) k)"
    by (rule nested_other_proj [where \<pi> = "\<lambda>s k. vx (fst s k)"]) (rule laser_cells_vx)
  then show "vx (E (launch_laser emf laser off) k) = vx (E emf k)"
    by (simp add: launch_laser_loops Let_def)
  have "vx (snd ?EB k) = vx (snd (E emf, B emf) k)"
    by (rule nested_other_proj [where \<pi> = "\<lambda>s k. vx (snd s k)"]) (rule laser_cells_vx)
  then show "vx (B (launch_laser emf laser off) k) = vx (B emf k)"
    by (simp add: launch_laser_loops Let_def)
  assume i: "- gc00 emf \<le> i" "i < nx0 emf + gc01 emf"
    and out: "\<not> (0 \<le> i \<and> i < nx0 emf \<and> 0 \<le> j \<and> j < nx1 emf)"
  have ne: "i + j * nrow emf \<noteq> a + b * nrow emf"
    if "0 \<le> a" "a < nx0 emf" "0 \<le> b" "b < nx1 emf" for a b
    using idx_unique [of "gc00 emf" i "nrow emf" a j b] that i out assms by auto
  have "fst ?EB (i + j * nrow emf) = fst (E emf, B emf) (i + j * nrow emf)"
    by (rule nested_other_proj [where \<pi> = fst]) (rule laser_cells_other, erule (3) ne)
  moreover have "snd ?EB (i + j * nrow emf) = snd (E emf, B emf) (i + j * nrow emf)"
    by (rule nested_other_proj [where \<pi> = snd]) (rule laser_cells_other, erule (3) ne)
  ultimately show "E (launch_laser emf laser off) (i + j * nrow emf) = E emf (i + j * nrow emf)
         \<and> B (launch_laser emf laser off) (i + j * nrow emf) = B emf (i + j * nrow emf)"
    by (simp add: launch_laser_loops Let_def)
qed


text \<open>
  \<open>laser_rejected\<close>: the parameter sets that the validation turns down.  A non-zero FWHM
  replaces rise, flat and fall before they are checked; a zero FWHM means "not given".
\<close>

definition laser_rejected :: "t_emf_laser \<Rightarrow> bool" where
  "laser_rejected laser \<longleftrightarrow>
     fwhm laser < 0 \<or> (fwhm laser = 0 \<and> (rise laser \<le> 0 \<or> flat laser < 0 \<or> fall laser \<le> 0))"

definition laser_ex :: t_emf_laser where
  "laser_ex = \<lparr>laser_type = PLANE, start = 1, fwhm = 0, rise = 1, flat = 0, fall = 1, a0 = 1,
     omega0 = 1, polarization = 0, W0 = 1, focus = 0, axis = 0\<rparr>"

text \<open>
  C9 (as amended).  \<open>emf_add_laser\<close> exits (with a message naming the parameter, status -1)
  exactly for the parameter sets with a negative FWHM, or with FWHM zero and a
  non-positive rise, a negative flat or a non-positive fall.  For every other parameter
  set it does not exit; it stores the FWHM, if given, into rise and fall and zero into
  flat, and changes the field structure only in \<open>E\<close> and \<open>B\<close>: the \<open>x\<close> components and every cell
  outside the interior \<open>[0, nx[0]) \<times> [0, nx[1])\<close> keep their values.
\<close>

theorem emf_add_laser_validation:
  assumes "nrow emf = gc00 emf + nx0 emf + gc01 emf" "0 \<le> gc00 emf" "0 \<le> gc01 emf"
  shows "(isl (emf_add_laser emf laser off) \<longleftrightarrow> laser_rejected laser)
       \<and> (\<not> laser_rejected laser \<longrightarrow>
            (\<exists>emf' laser'. emf_add_laser emf laser off = Inr (emf', laser')
               \<and> laser' = (if fwhm laser \<noteq> 0
                            then laser\<lparr>rise := fwhm laser, fall := fwhm laser, flat := 0\<rparr>
                            else laser)
               \<and> emf' = emf\<lparr>E := E emf', B := B emf'\<rparr>
               \<and> (\<forall>k. vx (E emf' k) = vx (E emf k) \<and> vx (B emf' k) = vx (B emf k))
               \<and> (\<forall>i j. - gc00 emf \<le> i \<and> i < nx0 emf + gc01 emf
                      \<and> \<not> (0 \<le> i \<and> i < nx0 emf \<and> 0 \<le> j \<and> j < nx1 emf)
                    \<longrightarrow> E emf' (i + j * nrow emf) = E emf (i + j * nrow emf)
                      \<and> B emf' (i + j * nrow emf) = B emf (i + j * nrow emf))))"
proof (intro conjI impI)
  show "isl (emf_add_laser emf laser off) \<longleftrightarrow> laser_rejected laser"
    by (auto simp: emf_add_laser_def laser_rejected_def Let_def)
next
  assume ok: "\<not> laser_rejected laser"
  let ?l = "if fwhm laser \<noteq> 0
            then laser\<lparr>rise := fwhm laser, fall := fwhm laser, flat := 0\<rparr> else laser"
  have r: "emf_add_laser emf laser off = Inr (launch_laser emf ?l off, ?l)"
    using ok by (auto simp: emf_add_laser_def laser_rejected_def Let_def)
  show "\<exists>emf' laser'. emf_add_laser emf laser off = Inr (emf', laser')
               \<and> laser' = ?l
               \<and> emf' = emf\<lparr>E := E emf', B := B emf'\<rparr>
               \<and> (\<forall>k. vx (E emf' k) = vx (E emf k) \<and> vx (B emf' k) = vx (B emf k))
               \<and> (\<forall>i j. - gc00 emf \<le> i \<and> i < nx0 emf + gc01 emf
                      \<and> \<not> (0 \<le> i \<and> i < nx0 emf \<and> 0 \<le> j \<and> j < nx1 emf)
                    \<longrightarrow> E emf' (i + j * nrow emf) = E emf (i + j * nrow emf)
                      \<and> B emf' (i + j * nrow emf) = B emf (i + j * nrow emf))"
    unfolding r
    using launch_laser_frame [OF assms, where laser = ?l and off = off]
    by (intro exI [of _ "launch_laser emf ?l off"] exI [of _ ?l]) blast
qed

theorem emf_add_laser_validation_witness:
  "\<not> isl (emf_add_laser emf_ex laser_ex 0)
   \<and> isl (emf_add_laser emf_ex (laser_ex\<lparr>fwhm := - 1\<rparr>) 0)
   \<and> isl (emf_add_laser emf_ex (laser_ex\<lparr>flat := - 1\<rparr>) 0)
   \<and> (\<exists>emf' laser'. emf_add_laser emf_ex laser_ex 0 = Inr (emf', laser') \<and> laser' = laser_ex
        \<and> E emf' (- 1 + 0 * nrow emf_ex) = E emf_ex (- 1 + 0 * nrow emf_ex))"
proof -
  have g: "nrow emf_ex = gc00 emf_ex + nx0 emf_ex + gc01 emf_ex" "0 \<le> gc00 emf_ex" "0 \<le> gc01 emf_ex"
    by (simp_all add: emf_ex_def)
  note v = emf_add_laser_validation [OF g]
  have ok: "\<not> laser_rejected laser_ex" "fwhm laser_ex = 0"
    and bad: "laser_rejected (laser_ex\<lparr>fwhm := - 1\<rparr>)" "laser_rejected (laser_ex\<lparr>flat := - 1\<rparr>)"
    by (simp_all add: laser_rejected_def laser_ex_def)
  have cell: "- gc00 emf_ex \<le> - 1 \<and> - 1 < nx0 emf_ex + gc01 emf_ex
      \<and> \<not> (0 \<le> (- 1 :: int) \<and> - 1 < nx0 emf_ex \<and> 0 \<le> (0 :: int) \<and> 0 < nx1 emf_ex)"
    by (simp add: emf_ex_def)
  from v [of laser_ex 0] ok obtain emf' laser' where
    r: "emf_add_laser emf_ex laser_ex 0 = Inr (emf', laser')" "laser' = laser_ex"
      "\<forall>i j. - gc00 emf_ex \<le> i \<and> i < nx0 emf_ex + gc01 emf_ex
                      \<and> \<not> (0 \<le> i \<and> i < nx0 emf_ex \<and> 0 \<le> j \<and> j < nx1 emf_ex)
                    \<longrightarrow> E emf' (i + j * nrow emf_ex) = E emf_ex (i + j * nrow emf_ex)
                      \<and> B emf' (i + j * nrow emf_ex) = B emf_ex (i + j * nrow emf_ex)"
    by auto
  have "E emf' (- 1 + 0 * nrow emf_ex) = E emf_ex (- 1 + 0 * nrow emf_ex)"
    using r(3) cell by blast
  then show ?thesis
    using v [of laser_ex 0] v [of "laser_ex\<lparr>fwhm := - 1\<rparr>" 0] v [of "laser_ex\<lparr>flat := - 1\<rparr>" 0]
      ok bad r(1,2) by blast
qed

text \<open>
  The claim as stated fails: a parameter set with FWHM zero (so non-positive) and valid
  rise, flat and fall is accepted, and so is one with a positive FWHM and a negative rise.
\<close>

theorem emf_add_laser_counterexample:
  "fwhm laser_ex \<le> 0 \<and> \<not> isl (emf_add_laser emf_ex laser_ex 0)
   \<and> rise (laser_ex\<lparr>fwhm := 1, rise := - 1\<rparr>) \<le> 0
   \<and> \<not> isl (emf_add_laser emf_ex (laser_ex\<lparr>fwhm := 1, rise := - 1\<rparr>) 0)"
  by (simp add: emf_add_laser_def laser_ex_def Let_def)


section \<open>Particles: data model, interpolation, Boris push, current deposition\<close>

text \<open>
  The particle code is \<open>kernel_particles.c\<close>.  Its header is not among the sources; the
  structures are taken from their use.  \<open>t_vp\<close> is the virtual particle of the current
  deposition; its members carry the prefix \<open>vp_\<close> here.  \<open>t_particle_vector\<close> is the
  structure of arrays \<open>ix, iy, x, y, ux, uy, uz, invalid\<close> with \<open>size\<close>, \<open>size_max\<close> and
  \<open>enable_vector\<close>; its members carry the prefix \<open>p_\<close>.  \<open>t_float3\<close> has the shape of
  \<open>t_vfld\<close> and is modelled by it.
\<close>

record t_vp =
  vp_x0 :: real
  vp_x1 :: real
  vp_y0 :: real
  vp_y1 :: real
  vp_dx :: real
  vp_dy :: real
  vp_qvz :: real
  vp_ix :: int
  vp_iy :: int

record t_particle_vector =
  p_ix :: "int \<Rightarrow> int"
  p_iy :: "int \<Rightarrow> int"
  p_x :: "int \<Rightarrow> real"
  p_y :: "int \<Rightarrow> real"
  p_ux :: "int \<Rightarrow> real"
  p_uy :: "int \<Rightarrow> real"
  p_uz :: "int \<Rightarrow> real"
  p_invalid :: "int \<Rightarrow> bool"
  p_size :: int
  p_size_max :: int
  p_enable_vector :: bool

text \<open>
  Modelled from the spec: the macro \<open>LTRIM\<close> is not defined in the sources at hand.  The
  specification gives it: \<open>LTRIM(v)\<close> returns \<open>-1\<close> if \<open>v < 0\<close>, \<open>+1\<close> if \<open>v \<ge> 1\<close>, else \<open>0\<close>.
  \<open>bool_int\<close> is the value of a C comparison used as an \<open>int\<close>.
\<close>

definition LTRIM :: "real \<Rightarrow> int" where
  "LTRIM v = (if v < 0 then - 1 else if v \<ge> 1 then 1 else 0)"

definition bool_int :: "bool \<Rightarrow> int" where
  "bool_int b = (if b then 1 else 0)"

definition interpolate_fld_openacc :: "grid \<Rightarrow> grid \<Rightarrow> int \<Rightarrow> int \<Rightarrow> int \<Rightarrow> real \<Rightarrow> real
    \<Rightarrow> t_vfld \<times> t_vfld" where
  "interpolate_fld_openacc E0 B0 nrow' ix' iy' x' y' =
     (let ih = ix' + (if x' < 0.5 then - 1 else 0);
          jh = iy' + (if y' < 0.5 then - 1 else 0);
          w1h = fadd x' (if x' < 0.5 then 0.5 else - 0.5);
          w2h = fadd y' (if y' < 0.5 then 0.5 else - 0.5);
          Epx = fadd (fmul (fadd (fmul (vx (E0 (ih + iy' * nrow'))) (fsub 1 w1h))
                                 (fmul (vx (E0 (ih + 1 + iy' * nrow'))) w1h)) (fsub 1 y'))
                     (fmul (fadd (fmul (vx (E0 (ih + (iy' + 1) * nrow'))) (fsub 1 w1h))
                                 (fmul (vx (E0 (ih + 1 + (iy' + 1) * nrow'))) w1h)) y');
          Epy = fadd (fmul (fadd (fmul (vy (E0 (ix' + jh * nrow'))) (fsub 1 x'))
                                 (fmul (vy (E0 (ix' + 1 + jh * nrow'))) x')) (fsub 1 w2h))
                     (fmul (fadd (fmul (vy (E0 (ix' + (jh + 1) * nrow'))) (fsub 1 x'))
                                 (fmul (vy (E0 (ix' + 1 + (jh + 1) * nrow'))) x')) w2h);
          Epz = fadd (fmul (fadd (fmul (vz (E0 (ix' + iy' * nrow'))) (fsub 1 x'))
                                 (fmul (vz (E0 (ix' + 1 + iy' * nrow'))) x')) (fsub 1 y'))
                     (fmul (fadd (fmul (vz (E0 (ix' + (iy' + 1) * nrow'))) (fsub 1 x'))
                                 (fmul (vz (E0 (ix' + 1 + (iy' + 1) * nrow'))) x')) y');
          Bpx = fadd (fmul (fadd (fmul (vx (B0 (ix' + jh * nrow'))) (fsub 1 x'))
                                 (fmul (vx (B0 (ix' + 1 + jh * nrow'))) x')) (fsub 1 w2h))
                     (fmul (fadd (fmul (vx (B0 (ix' + (jh + 1) * nrow'))) (fsub 1 x'))
                                 (fmul (vx (B0 (ix' + 1 + (jh + 1) * nrow'))) x')) w2h);
          Bpy = fadd (fmul (fadd (fmul (vy (B0 (ih + iy' * nrow'))) (fsub 1 w1h))
                                 (fmul (vy (B0 (ih + 1 + iy' * nrow'))) w1h)) (fsub 1 y'))
                     (fmul (fadd (fmul (vy (B0 (ih + (iy' + 1) * nrow'))) (fsub 1 w1h))
                                 (fmul (vy (B0 (ih + 1 + (iy' + 1) * nrow'))) w1h)) y');
          Bpz = fadd (fmul (fadd (fmul (vz (B0 (ih + jh * nrow'))) (fsub 1 w1h))
                                 (fmul (vz (B0 (ih + 1 + jh * nrow'))) w1h)) (fsub 1 w2h))
                     (fmul (fadd (fmul (vz (B0 (ih + (jh + 1) * nrow'))) (fsub 1 w1h))
                                 (fmul (vz (B0 (ih + 1 + (jh + 1) * nrow'))) w1h)) w2h)
      in (\<lparr>vx = Epx, vy = Epy, vz = Epz\<rparr>, \<lparr>vx = Bpx, vy = Bpy, vz = Bpz\<rparr>))"

definition advance_part_velocity :: "t_vfld \<Rightarrow> t_vfld \<Rightarrow> t_vfld \<Rightarrow> real \<Rightarrow> t_vfld" where
  "advance_part_velocity part_velocity Ep0 Bp0 tem =
     (let Ep = \<lparr>vx = fmul (vx Ep0) tem, vy = fmul (vy Ep0) tem, vz = fmul (vz Ep0) tem\<rparr>;
          ut = \<lparr>vx = fadd (vx part_velocity) (vx Ep), vy = fadd (vy part_velocity) (vy Ep),
                vz = fadd (vz part_velocity) (vz Ep)\<rparr>;
          ustq = fadd (fadd (fmul (vx ut) (vx ut)) (fmul (vy ut) (vy ut))) (fmul (vz ut) (vz ut));
          gtem = fdiv tem (fsqrt (fadd 1 ustq));
          Bp = \<lparr>vx = fmul (vx Bp0) gtem, vy = fmul (vy Bp0) gtem, vz = fmul (vz Bp0) gtem\<rparr>;
          pv = \<lparr>vx = fsub (fadd (vx ut) (fmul (vy ut) (vz Bp))) (fmul (vz ut) (vy Bp)),
                vy = fsub (fadd (vy ut) (fmul (vz ut) (vx Bp))) (fmul (vx ut) (vz Bp)),
                vz = fsub (fadd (vz ut) (fmul (vx ut) (vy Bp))) (fmul (vy ut) (vx Bp))\<rparr>;
          Bp_mag = fadd (fadd (fmul (vx Bp) (vx Bp)) (fmul (vy Bp) (vy Bp))) (fmul (vz Bp) (vz Bp));
          otsq = fdiv 2 (fadd 1 Bp_mag);
          Bp' = \<lparr>vx = fmul (vx Bp) otsq, vy = fmul (vy Bp) otsq, vz = fmul (vz Bp) otsq\<rparr>;
          ut' = \<lparr>vx = fadd (vx ut) (fsub (fmul (vy pv) (vz Bp')) (fmul (vz pv) (vy Bp'))),
                 vy = fadd (vy ut) (fsub (fmul (vz pv) (vx Bp')) (fmul (vx pv) (vz Bp'))),
                 vz = fadd (vz ut) (fsub (fmul (vx pv) (vy Bp')) (fmul (vy pv) (vx Bp')))\<rparr>
      in \<lparr>vx = fadd (vx ut') (vx Ep), vy = fadd (vy ut') (vy Ep), vz = fadd (vz ut') (vz Ep)\<rparr>)"

type_synonym vp_array = "int \<Rightarrow> t_vp"

text \<open>
  The arithmetic of the \<open>float\<close> expressions of \<open>dep_current_openacc\<close> is a parameter of its
  embedding.  \<open>float_arith\<close> is the arithmetic of the program: every operation is rounded to
  single precision.  \<open>real_arith\<close> is the arithmetic of the reals, in which the algebraic
  laws of the split are stated.
\<close>

record t_arith =
  a_add :: "real \<Rightarrow> real \<Rightarrow> real"
  a_sub :: "real \<Rightarrow> real \<Rightarrow> real"
  a_mul :: "real \<Rightarrow> real \<Rightarrow> real"
  a_div :: "real \<Rightarrow> real \<Rightarrow> real"

definition float_arith :: t_arith where
  "float_arith = \<lparr>a_add = fadd, a_sub = fsub, a_mul = fmul, a_div = fdiv\<rparr>"

definition real_arith :: t_arith where
  "real_arith = \<lparr>a_add = (+), a_sub = (-), a_mul = (*), a_div = (/)\<rparr>"

text \<open>
  \<open>dep_current_openacc\<close>.  The trajectory split works on the three slots
  \<open>vp[begin .. begin + 2]\<close> of the array it is given, \<open>begin = 3 * thread_id\<close>.  Its parts are
  \<open>init_vp\<close> (the statements before the x split), \<open>x_split\<close> and \<open>y_split\<close> (the two \<open>if\<close>
  blocks; \<open>y_split_stmts\<close> holds the statements of the second after its locals are set)
  and \<open>deposit_vp\<close> (the body of the deposit loop).  The program is the instance of
  \<open>float_arith\<close>, which is the one the particle push calls.
\<close>

definition x_split :: "t_arith \<Rightarrow> int \<Rightarrow> int \<Rightarrow> int \<Rightarrow> real \<Rightarrow> real \<Rightarrow> real \<Rightarrow> real \<Rightarrow> int
    \<Rightarrow> vp_array \<times> int \<Rightarrow> vp_array \<times> int" where
  "x_split ar ix' iy' di x0 y0 dx dy begin st =
     (let (vp, vnp) = st in
      if di \<noteq> 0 then
        (let ib = bool_int (di = 1);
             delta = a_div ar (a_sub ar (a_add ar x0 dx) (real_of_int ib)) dx;
             vp = vp(begin + 1 := (vp (begin + 1))\<lparr>vp_x0 := real_of_int (1 - ib)\<rparr>);
             vp = vp(begin + 1 := (vp (begin + 1))\<lparr>vp_x1 := a_sub ar (a_add ar x0 dx) (real_of_int di)\<rparr>);
             vp = vp(begin + 1 := (vp (begin + 1))\<lparr>vp_dx := a_mul ar dx delta\<rparr>);
             vp = vp(begin + 1 := (vp (begin + 1))\<lparr>vp_ix := ix' + di\<rparr>);
             ycross = a_add ar y0 (a_mul ar dy (a_sub ar 1 delta));
             vp = vp(begin + 1 := (vp (begin + 1))\<lparr>vp_y0 := ycross\<rparr>);
             vp = vp(begin + 1 := (vp (begin + 1))\<lparr>vp_y1 := vp_y1 (vp begin)\<rparr>);
             vp = vp(begin + 1 := (vp (begin + 1))\<lparr>vp_dy := a_mul ar dy delta\<rparr>);
             vp = vp(begin + 1 := (vp (begin + 1))\<lparr>vp_iy := iy'\<rparr>);
             vp = vp(begin + 1 := (vp (begin + 1))\<lparr>vp_qvz := a_mul ar (vp_qvz (vp begin)) delta\<rparr>);
             vp = vp(begin := (vp begin)\<lparr>vp_x1 := real_of_int ib\<rparr>);
             vp = vp(begin := (vp begin)\<lparr>vp_dx := a_mul ar (vp_dx (vp begin)) (a_sub ar 1 delta)\<rparr>);
             vp = vp(begin := (vp begin)\<lparr>vp_dy := a_mul ar (vp_dy (vp begin)) (a_sub ar 1 delta)\<rparr>);
             vp = vp(begin := (vp begin)\<lparr>vp_y1 := ycross\<rparr>);
             vp = vp(begin := (vp begin)\<lparr>vp_qvz := a_mul ar (vp_qvz (vp begin)) (a_sub ar 1 delta)\<rparr>)
         in (vp, vnp + 1))
      else (vp, vnp))"

definition y_split_stmts :: "t_arith \<Rightarrow> int \<Rightarrow> int \<Rightarrow> int \<Rightarrow> int \<Rightarrow> real \<Rightarrow> vp_array \<Rightarrow> int
    \<Rightarrow> vp_array \<times> int" where
  \<comment> \<open>the statements of the y split after its locals \<open>isy\<close>, \<open>jb\<close> and \<open>delta\<close> are set\<close>
  "y_split_stmts ar dj begin isy jb delta vp0 vnp =
     (let vp = vp0(begin + vnp := (vp0 (begin + vnp))\<lparr>vp_y0 := real_of_int (1 - jb)\<rparr>);
          vp = vp(begin + vnp := (vp (begin + vnp))\<lparr>vp_y1 := a_sub ar (vp_y1 (vp (begin + isy))) (real_of_int dj)\<rparr>);
          vp = vp(begin + vnp := (vp (begin + vnp))\<lparr>vp_dy := a_mul ar (vp_dy (vp (begin + isy))) delta\<rparr>);
          vp = vp(begin + vnp := (vp (begin + vnp))\<lparr>vp_iy := vp_iy (vp (begin + isy)) + dj\<rparr>);
          xcross = a_add ar (vp_x0 (vp (begin + isy))) (a_mul ar (vp_dx (vp (begin + isy))) (a_sub ar 1 delta));
          vp = vp(begin + vnp := (vp (begin + vnp))\<lparr>vp_x0 := xcross\<rparr>);
          vp = vp(begin + vnp := (vp (begin + vnp))\<lparr>vp_x1 := vp_x1 (vp (begin + isy))\<rparr>);
          vp = vp(begin + vnp := (vp (begin + vnp))\<lparr>vp_dx := a_mul ar (vp_dx (vp (begin + isy))) delta\<rparr>);
          vp = vp(begin + vnp := (vp (begin + vnp))\<lparr>vp_ix := vp_ix (vp (begin + isy))\<rparr>);
          vp = vp(begin + vnp := (vp (begin + vnp))\<lparr>vp_qvz := a_mul ar (vp_qvz (vp (begin + isy))) delta\<rparr>);
          vp = vp(begin + isy := (vp (begin + isy))\<lparr>vp_y1 := real_of_int jb\<rparr>);
          vp = vp(begin + isy := (vp (begin + isy))\<lparr>vp_dy := a_mul ar (vp_dy (vp (begin + isy))) (a_sub ar 1 delta)\<rparr>);
          vp = vp(begin + isy := (vp (begin + isy))\<lparr>vp_dx := a_mul ar (vp_dx (vp (begin + isy))) (a_sub ar 1 delta)\<rparr>);
          vp = vp(begin + isy := (vp (begin + isy))\<lparr>vp_x1 := xcross\<rparr>);
          vp = vp(begin + isy := (vp (begin + isy))\<lparr>vp_qvz := a_mul ar (vp_qvz (vp (begin + isy))) (a_sub ar 1 delta)\<rparr>);
          vp = (if isy < vnp - 1 then
                  (let vp = vp(begin + 1 := (vp (begin + 1))\<lparr>vp_y0 := a_sub ar (vp_y0 (vp (begin + 1))) (real_of_int dj)\<rparr>);
                       vp = vp(begin + 1 := (vp (begin + 1))\<lparr>vp_y1 := a_sub ar (vp_y1 (vp (begin + 1))) (real_of_int dj)\<rparr>)
                   in vp(begin + 1 := (vp (begin + 1))\<lparr>vp_iy := vp_iy (vp (begin + 1)) + dj\<rparr>))
                else vp)
      in (vp, vnp + 1))"

definition y_split :: "t_arith \<Rightarrow> int \<Rightarrow> int \<Rightarrow> vp_array \<times> int \<Rightarrow> vp_array \<times> int" where
  "y_split ar dj begin st =
     (let (vp, vnp) = st in
      if dj \<noteq> 0 then
        (let isy = 1 - bool_int (vp_y1 (vp begin) < 0 \<or> vp_y1 (vp begin) \<ge> 1);
             jb = bool_int (dj = 1);
             delta = a_div ar (a_sub ar (vp_y1 (vp (begin + isy))) (real_of_int jb))
                       (vp_dy (vp (begin + isy)))
         in y_split_stmts ar dj begin isy jb delta vp vnp)
      else (vp, vnp))"

definition init_vp :: "t_arith \<Rightarrow> int \<Rightarrow> int \<Rightarrow> real \<Rightarrow> real \<Rightarrow> real \<Rightarrow> real \<Rightarrow> real
    \<Rightarrow> vp_array \<Rightarrow> int \<Rightarrow> vp_array \<times> int" where
  "init_vp ar ix' iy' x0 y0 dx dy qvz vp0 begin =
     (let vnp = 1;
          vp = vp0(begin := (vp0 begin)\<lparr>vp_x0 := x0\<rparr>);
          vp = vp(begin := (vp begin)\<lparr>vp_y0 := y0\<rparr>);
          vp = vp(begin := (vp begin)\<lparr>vp_dx := dx\<rparr>);
          vp = vp(begin := (vp begin)\<lparr>vp_dy := dy\<rparr>);
          vp = vp(begin := (vp begin)\<lparr>vp_x1 := a_add ar x0 dx\<rparr>);
          vp = vp(begin := (vp begin)\<lparr>vp_y1 := a_add ar y0 dy\<rparr>);
          vp = vp(begin := (vp begin)\<lparr>vp_qvz := a_div ar qvz 2\<rparr>);
          vp = vp(begin := (vp begin)\<lparr>vp_ix := ix'\<rparr>);
          vp = vp(begin := (vp begin)\<lparr>vp_iy := iy'\<rparr>)
      in (vp, vnp))"

definition split_trajectory :: "t_arith \<Rightarrow> int \<Rightarrow> int \<Rightarrow> int \<Rightarrow> int \<Rightarrow> real \<Rightarrow> real \<Rightarrow> real \<Rightarrow> real
    \<Rightarrow> real \<Rightarrow> vp_array \<Rightarrow> int \<Rightarrow> vp_array \<times> int" where
  "split_trajectory ar ix' iy' di dj x0 y0 dx dy qvz vp0 begin =
     y_split ar dj begin (x_split ar ix' iy' di x0 y0 dx dy begin
       (init_vp ar ix' iy' x0 y0 dx dy qvz vp0 begin))"

definition deposit_vp :: "t_arith \<Rightarrow> real \<Rightarrow> real \<Rightarrow> int \<Rightarrow> t_vp \<Rightarrow> grid \<Rightarrow> grid" where
  "deposit_vp ar qnx qny nrow' v J0 =
     (let S0x0 = a_sub ar 1 (vp_x0 v); S0x1 = vp_x0 v;
          S1x0 = a_sub ar 1 (vp_x1 v); S1x1 = vp_x1 v;
          S0y0 = a_sub ar 1 (vp_y0 v); S0y1 = vp_y0 v;
          S1y0 = a_sub ar 1 (vp_y1 v); S1y1 = vp_y1 v;
          wl1 = a_mul ar qnx (vp_dx v);
          wl2 = a_mul ar qny (vp_dy v);
          wp10 = a_mul ar 0.5 (a_add ar S0y0 S1y0); wp11 = a_mul ar 0.5 (a_add ar S0y1 S1y1);
          wp20 = a_mul ar 0.5 (a_add ar S0x0 S1x0); wp21 = a_mul ar 0.5 (a_add ar S0x1 S1x1);
          a = vp_ix v + nrow' * vp_iy v;
          b = vp_ix v + nrow' * (vp_iy v + 1);
          c = vp_ix v + 1 + nrow' * vp_iy v;
          d = vp_ix v + 1 + nrow' * (vp_iy v + 1);
          J1 = J0(a := (J0 a)\<lparr>vx := a_add ar (vx (J0 a)) (a_mul ar wl1 wp10)\<rparr>);
          J2 = J1(b := (J1 b)\<lparr>vx := a_add ar (vx (J1 b)) (a_mul ar wl1 wp11)\<rparr>);
          J3 = J2(a := (J2 a)\<lparr>vy := a_add ar (vy (J2 a)) (a_mul ar wl2 wp20)\<rparr>);
          J4 = J3(c := (J3 c)\<lparr>vy := a_add ar (vy (J3 c)) (a_mul ar wl2 wp21)\<rparr>);
          J5 = J4(a := (J4 a)\<lparr>vz := a_add ar (vz (J4 a)) (a_mul ar (vp_qvz v)
                  (a_add ar (a_add ar (a_mul ar S0x0 S0y0) (a_mul ar S1x0 S1y0))
                     (a_div ar (a_sub ar (a_mul ar S0x0 S1y0) (a_mul ar S1x0 S0y0)) 2)))\<rparr>);
          J6 = J5(c := (J5 c)\<lparr>vz := a_add ar (vz (J5 c)) (a_mul ar (vp_qvz v)
                  (a_add ar (a_add ar (a_mul ar S0x1 S0y0) (a_mul ar S1x1 S1y0))
                     (a_div ar (a_sub ar (a_mul ar S0x1 S1y0) (a_mul ar S1x1 S0y0)) 2)))\<rparr>);
          J7 = J6(b := (J6 b)\<lparr>vz := a_add ar (vz (J6 b)) (a_mul ar (vp_qvz v)
                  (a_add ar (a_add ar (a_mul ar S0x0 S0y1) (a_mul ar S1x0 S1y1))
                     (a_div ar (a_sub ar (a_mul ar S0x0 S1y1) (a_mul ar S1x0 S0y1)) 2)))\<rparr>)
      in J7(d := (J7 d)\<lparr>vz := a_add ar (vz (J7 d)) (a_mul ar (vp_qvz v)
                  (a_add ar (a_add ar (a_mul ar S0x1 S0y1) (a_mul ar S1x1 S1y1))
                     (a_div ar (a_sub ar (a_mul ar S0x1 S1y1) (a_mul ar S1x1 S0y1)) 2)))\<rparr>))"

definition dep_current_openacc :: "t_arith \<Rightarrow> int \<Rightarrow> int \<Rightarrow> int \<Rightarrow> int \<Rightarrow> real \<Rightarrow> real \<Rightarrow> real \<Rightarrow> real
    \<Rightarrow> real \<Rightarrow> real \<Rightarrow> real \<Rightarrow> grid \<Rightarrow> int \<Rightarrow> vp_array \<Rightarrow> int \<Rightarrow> grid \<times> vp_array" where
  "dep_current_openacc ar ix' iy' di dj x0 y0 dx dy qnx qny qvz J0 nrow' vp0 thread_id =
     (let begin = thread_id * 3;
          (vp, vnp) = split_trajectory ar ix' iy' di dj x0 y0 dx dy qvz vp0 begin
      in (for_loop begin (begin + vnp) (\<lambda>k. deposit_vp ar qnx qny nrow' (vp k)) J0, vp))"

section \<open>The trajectory split\<close>






lemma real_arith_simps [simp]:
  "a_add real_arith = (+)" "a_sub real_arith = (-)" "a_mul real_arith = (*)" "a_div real_arith = (/)"
  by (simp_all add: real_arith_def)

lemma float_arith_simps [simp]:
  "a_add float_arith = fadd" "a_sub float_arith = fsub" "a_mul float_arith = fmul"
  "a_div float_arith = fdiv"
  by (simp_all add: float_arith_def)













lemma LTRIM_cases: "LTRIM v = - 1 \<or> LTRIM v = 0 \<or> LTRIM v = 1"
  by (simp add: LTRIM_def)







section \<open>Particle advance\<close>

text \<open>
  \<open>t_species\<close>: the members used by the kernels.  Members that share a name with a member
  of \<open>t_emf\<close> carry the prefix \<open>s_\<close>; \<open>incoming_part[3]\<close> is \<open>s_incoming_part\<close>.
\<close>

record t_species =
  main_vector :: t_particle_vector
  s_incoming_part :: "int \<Rightarrow> t_particle_vector"
  tile_offset :: "int \<Rightarrow> int"
  mv_part_offset :: "int \<Rightarrow> int"
  n_tiles_x :: int
  n_tiles_y :: int
  s_m_q :: real
  s_q :: real
  s_dx0 :: real
  s_dx1 :: real
  s_dt :: real
  s_nx0 :: int
  s_nx1 :: int
  s_iter :: int
  s_moving_window :: bool
  s_n_move :: int

text \<open>
  \<open>push_particle\<close> is the block that both particle advances run for a valid particle
  \<open>k\<close>: interpolate, advance the momentum, push, deposit the current and store.  The
  advances differ in the arrays, the row lengths and the cell index they pass.
\<close>

definition push_particle :: "real \<Rightarrow> real \<Rightarrow> real \<Rightarrow> real \<Rightarrow> real \<Rightarrow> real
    \<Rightarrow> grid \<Rightarrow> grid \<Rightarrow> int \<Rightarrow> int \<Rightarrow> int \<Rightarrow> int \<Rightarrow> int \<Rightarrow> int
    \<Rightarrow> t_particle_vector \<times> grid \<times> vp_array \<Rightarrow> t_particle_vector \<times> grid \<times> vp_array" where
  "push_particle tem dt_dx dt_dy qnx qny q' E0 B0 nrow_eb nrow_j' part_idx_x part_idx_y thread_id k st =
     (let (mv, J0, vp) = st;
          part_velocity = \<lparr>vx = p_ux mv k, vy = p_uy mv k, vz = p_uz mv k\<rparr>;
          part_pos_x = p_x mv k;
          part_pos_y = p_y mv k;
          (Ep, Bp) = interpolate_fld_openacc E0 B0 nrow_eb part_idx_x part_idx_y part_pos_x part_pos_y;
          part_velocity = advance_part_velocity part_velocity Ep Bp tem;
          usq = fadd (fadd (fmul (vx part_velocity) (vx part_velocity))
                           (fmul (vy part_velocity) (vy part_velocity)))
                     (fmul (vz part_velocity) (vz part_velocity));
          rg = fdiv 1 (fsqrt (fadd 1 usq));
          dx = fmul (fmul dt_dx rg) (vx part_velocity);
          dy = fmul (fmul dt_dy rg) (vy part_velocity);
          x1 = fadd part_pos_x dx;
          y1 = fadd part_pos_y dy;
          di = LTRIM x1;
          dj = LTRIM y1;
          qvz = fmul (fmul q' (vz part_velocity)) rg;
          (J1, vp1) = dep_current_openacc float_arith part_idx_x part_idx_y di dj part_pos_x part_pos_y dx dy
                        qnx qny qvz J0 nrow_j' vp thread_id;
          mv = mv\<lparr>p_x := (p_x mv)(k := fsub x1 (f32 (real_of_int di)))\<rparr>;
          mv = mv\<lparr>p_y := (p_y mv)(k := fsub y1 (f32 (real_of_int dj)))\<rparr>;
          mv = mv\<lparr>p_ix := (p_ix mv)(k := p_ix mv k + di)\<rparr>;
          mv = mv\<lparr>p_iy := (p_iy mv)(k := p_iy mv k + dj)\<rparr>;
          mv = mv\<lparr>p_ux := (p_ux mv)(k := vx part_velocity)\<rparr>;
          mv = mv\<lparr>p_uy := (p_uy mv)(k := vy part_velocity)\<rparr>;
          mv = mv\<lparr>p_uz := (p_uz mv)(k := vz part_velocity)\<rparr>
      in (mv, J1, vp1))"

definition spec_advance_openacc_default :: "t_species \<Rightarrow> t_emf \<Rightarrow> t_current \<Rightarrow> int
    \<Rightarrow> t_species \<times> t_current" where
  "spec_advance_openacc_default spec emf current limits_y0 =
     (let tem = f32 (f64 (f64 (0.5 * s_dt spec) / s_m_q spec));
          dt_dx = fdiv (s_dt spec) (s_dx0 spec);
          dt_dy = fdiv (s_dt spec) (s_dx1 spec);
          qnx = fdiv (fmul (s_q spec) (s_dx0 spec)) (s_dt spec);
          qny = fdiv (fmul (s_q spec) (s_dx1 spec)) (s_dt spec);
          nrow' = nrow emf;
          region_offset = limits_y0;
          (mv, J') = for_loop 0 (p_size (main_vector spec)) (\<lambda>k (mv, J0).
             if \<not> p_invalid mv k then
               (let (mv', J1, vp1) = push_particle tem dt_dx dt_dy qnx qny (s_q spec) (E emf) (B emf)
                      nrow' nrow' (p_ix mv k) (p_iy mv k - region_offset) 0 k
                      (mv, J0, (\<lambda>i. undefined))
                in (mv', J1))
             else (mv, J0)) (main_vector spec, J current)
      in (spec\<lparr>main_vector := mv, s_iter := s_iter spec + 1\<rparr>, current\<lparr>J := J'\<rparr>))"

text \<open>\<open>particle_at mv k\<close> collects what the arrays hold for particle \<open>k\<close>.\<close>

definition particle_at :: "t_particle_vector \<Rightarrow> int
    \<Rightarrow> (int \<times> int) \<times> (real \<times> real) \<times> (real \<times> real \<times> real) \<times> bool" where
  "particle_at mv k = ((p_ix mv k, p_iy mv k), (p_x mv k, p_y mv k),
                       (p_ux mv k, p_uy mv k, p_uz mv k), p_invalid mv k)"

lemma interpolate_zero:
  "interpolate_fld_openacc (\<lambda>m. zero_fld) (\<lambda>m. zero_fld) n i j a b = (zero_fld, zero_fld)"
  by (simp add: interpolate_fld_openacc_def zero_fld_def Let_def)

lemma advance_part_velocity_zero:
  assumes "f32 (vx u) = vx u" "f32 (vy u) = vy u" "f32 (vz u) = vz u"
  shows "advance_part_velocity u zero_fld zero_fld tem = u"
  using assms
  by (simp add: advance_part_velocity_def zero_fld_def Let_def fadd_zero_right fsub_zero_right)

lemma push_particle_other:
  "k' \<noteq> k \<Longrightarrow>
   particle_at (fst (push_particle tem dt_dx dt_dy qnx qny q' E0 B0 n nj a b tid k' st)) k
     = particle_at (fst st) k"
  by (simp add: push_particle_def particle_at_def Let_def case_prod_unfold)

text \<open>\<open>free_push\<close>: the push of a particle on which no field acts.\<close>

definition free_push :: "real \<Rightarrow> real \<Rightarrow> real
    \<Rightarrow> (int \<times> int) \<times> (real \<times> real) \<times> (real \<times> real \<times> real) \<times> bool
    \<Rightarrow> (int \<times> int) \<times> (real \<times> real) \<times> (real \<times> real \<times> real) \<times> bool" where
  "free_push tem dt_dx dt_dy p =
     (let ((ix', iy'), (x', y'), (ux, uy, uz), inv') = p;
          pv = advance_part_velocity \<lparr>vx = ux, vy = uy, vz = uz\<rparr> zero_fld zero_fld tem;
          rg = fdiv 1 (fsqrt (fadd 1 (fadd (fadd (fmul (vx pv) (vx pv)) (fmul (vy pv) (vy pv)))
                                           (fmul (vz pv) (vz pv)))));
          x1 = fadd x' (fmul (fmul dt_dx rg) (vx pv));
          y1 = fadd y' (fmul (fmul dt_dy rg) (vy pv))
      in ((ix' + LTRIM x1, iy' + LTRIM y1),
          (fsub x1 (f32 (real_of_int (LTRIM x1))), fsub y1 (f32 (real_of_int (LTRIM y1)))),
          (vx pv, vy pv, vz pv), inv'))"

lemma push_particle_free:
  "particle_at (fst (push_particle tem dt_dx dt_dy qnx qny q' (\<lambda>m. zero_fld) (\<lambda>m. zero_fld)
       n nj a b tid k st)) k = free_push tem dt_dx dt_dy (particle_at (fst st) k)"
  by (simp add: push_particle_def particle_at_def free_push_def Let_def case_prod_unfold
      interpolate_zero)

lemma advance_default_free:
  assumes E: "\<forall>m. E emf m = zero_fld" and B: "\<forall>m. B emf m = zero_fld"
    and k: "0 \<le> k" "k < p_size (main_vector spec)" "\<not> p_invalid (main_vector spec) k"
  shows "particle_at (main_vector (fst (spec_advance_openacc_default spec emf cur ly0))) k
       = free_push (f32 (f64 (f64 (0.5 * s_dt spec) / s_m_q spec)))
           (fdiv (s_dt spec) (s_dx0 spec)) (fdiv (s_dt spec) (s_dx1 spec))
           (particle_at (main_vector spec) k)"
proof -
  have E0: "E emf = (\<lambda>m. zero_fld)" and B0: "B emf = (\<lambda>m. zero_fld)" using E B by auto
  let ?tem = "f32 (f64 (f64 (0.5 * s_dt spec) / s_m_q spec))"
  let ?dtx = "fdiv (s_dt spec) (s_dx0 spec)"
  let ?dty = "fdiv (s_dt spec) (s_dx1 spec)"
  let ?pi = "\<lambda>s. particle_at (fst s)"
  have loop: "?pi (for_loop 0 (p_size (main_vector spec)) (\<lambda>k s.
             if \<not> p_invalid (fst s) k then
               (fst (push_particle ?tem ?dtx ?dty qnx qny q' (\<lambda>m. zero_fld) (\<lambda>m. zero_fld)
                      n nj (p_ix (fst s) k) (p_iy (fst s) k - ly0) 0 k
                      (fst s, snd s, (\<lambda>i. undefined))),
                fst (snd (push_particle ?tem ?dtx ?dty qnx qny q' (\<lambda>m. zero_fld) (\<lambda>m. zero_fld)
                      n nj (p_ix (fst s) k) (p_iy (fst s) k - ly0) 0 k
                      (fst s, snd s, (\<lambda>i. undefined)))))
             else (fst s, snd s)) (main_vector spec, J cur)) k
        = free_push ?tem ?dtx ?dty (particle_at (main_vector spec) k)" for qnx qny q' n nj
  proof -
    let ?body = "\<lambda>k s.
             if \<not> p_invalid (fst s) k then
               (fst (push_particle ?tem ?dtx ?dty qnx qny q' (\<lambda>m. zero_fld) (\<lambda>m. zero_fld)
                      n nj (p_ix (fst s) k) (p_iy (fst s) k - ly0) 0 k
                      (fst s, snd s, (\<lambda>i. undefined))),
                fst (snd (push_particle ?tem ?dtx ?dty qnx qny q' (\<lambda>m. zero_fld) (\<lambda>m. zero_fld)
                      n nj (p_ix (fst s) k) (p_iy (fst s) k - ly0) 0 k
                      (fst s, snd s, (\<lambda>i. undefined)))))
             else (fst s, snd s)"
    have frame: "?pi (?body i s) j = ?pi s j" if "i \<noteq> j" for i j s
      using that push_particle_other [of i j] by (simp add: Let_def)
    have inv: "p_invalid (fst s) k = snd (snd (snd (particle_at (fst s) k)))" for s
      by (simp add: particle_at_def)
    have at: "?pi (?body k s) k =
        (if snd (snd (snd (?pi s k))) then ?pi s k else free_push ?tem ?dtx ?dty (?pi s k))" for s
      unfolding inv [symmetric] by (simp add: Let_def push_particle_free)
    have "?pi (for_loop 0 (p_size (main_vector spec)) ?body (main_vector spec, J cur)) k
          = ?pi (?body k (main_vector spec, J cur)) k"
    proof (rule for_loop_at_frame_proj [where S = "{k}"])
      show "0 \<le> k" "k < p_size (main_vector spec)" "k \<in> {k}" using k by simp_all
      show "?pi (?body i s) j = ?pi s j" if "i \<noteq> k" "j \<in> {k}" for i s j
        using that frame [of i j s] by simp
      show "?pi (?body k s) k = ?pi (?body k s') k" if "\<forall>j\<in>{k}. ?pi s j = ?pi s' j" for s s'
        unfolding at using that by simp
    qed
    also have "\<dots> = free_push ?tem ?dtx ?dty (particle_at (main_vector spec) k)"
      unfolding at using k(3) by (simp add: particle_at_def)
    finally show ?thesis .
  qed
  show ?thesis
    unfolding spec_advance_openacc_default_def E0 B0 Let_def case_prod_unfold
    using loop by (simp add: Let_def)
qed

lemma f32_minus_one [simp]: "f32 (- 1) = - 1"
  using f32_minus [of 1] by simp

lemma fsub_LTRIM_range:
  assumes "- 1 \<le> v" "v < 2"
  shows "0 \<le> fsub v (f32 (real_of_int (LTRIM v))) \<and> fsub v (f32 (real_of_int (LTRIM v))) \<le> 1"
proof -
  consider (a) "v < 0" | (b) "0 \<le> v" "v < 1" | (c) "1 \<le> v" by linarith
  then show ?thesis
  proof cases
    case a
    then have "fsub v (f32 (real_of_int (LTRIM v))) = f32 (v + 1)" by (simp add: LTRIM_def fsub_def)
    then show ?thesis using f32_unit_interval [of "v + 1"] a assms by simp
  next
    case b
    then have "fsub v (f32 (real_of_int (LTRIM v))) = f32 v" by (simp add: LTRIM_def fsub_def)
    then show ?thesis using f32_unit_interval [of v] b by simp
  next
    case c
    then have "fsub v (f32 (real_of_int (LTRIM v))) = f32 (v - 1)" by (simp add: LTRIM_def fsub_def)
    then show ?thesis using f32_unit_interval [of "v - 1"] c assms by simp
  qed
qed

lemma sqrt_25_16: "sqrt (25 / 16) = 5 / 4"
  by (rule real_sqrt_unique) (simp_all add: power2_eq_square)

definition moderate :: "real \<Rightarrow> bool" where
  "moderate v \<longleftrightarrow> \<bar>v\<bar> < 2 ^ 60"

text \<open>The reciprocal Lorentz factor of momentum \<open>(3/4, 0, 0)\<close> in single precision.\<close>

lemma rg_three_quarters:
  "fdiv 1 (fsqrt (fadd 1 (fadd (fadd (fmul (3 / 4) (3 / 4)) (fmul 0 0)) (fmul 0 0)))) = 13421773 / 16777216"
proof -
  have a: "f32 (9 / 16) = 9 / 16" using f32_dyadic [of 9 4] by simp
  have b: "f32 (25 / 16) = 25 / 16" using f32_dyadic [of 25 4] by simp
  have c: "f32 (5 / 4) = 5 / 4" using f32_dyadic [of 5 2] by simp
  have "f32 (4 / 5) = of_int (round_even (4 / 5 / 2 powi (- 1 - 23))) * 2 powi (- 1 - 23)"
    by (rule f32_eval) (simp_all add: power_int_minus)
  also have "\<dots> = 13421773 / 16777216"
    by (simp add: round_even_def Let_def power_int_minus)
  finally have d: "f32 (4 / 5) = 13421773 / 16777216" .
  show "fdiv 1 (fsqrt (fadd 1 (fadd (fadd (fmul (3 / 4) (3 / 4)) (fmul 0 0)) (fmul 0 0)))) = 13421773 / 16777216"
    by (simp add: fdiv_def fsqrt_def fadd_def fmul_def a b c d sqrt_25_16)
qed

definition emf_zero :: t_emf where
  "emf_zero = \<lparr>E = (\<lambda>k. zero_fld), B = (\<lambda>k. zero_fld),
     nx0 = 2, nx1 = 2, nrow = 5, gc00 = 1, gc01 = 2, gc10 = 1, gc11 = 2,
     dx0 = 1, dx1 = 1, dt = 1, iter = 0, moving_window = False, n_move = 0\<rparr>"

definition spec_free :: t_species where
  "spec_free = \<lparr>main_vector = \<lparr>p_ix = (\<lambda>k. 0), p_iy = (\<lambda>k. 0), p_x = (\<lambda>k. 1 / 2), p_y = (\<lambda>k. 1 / 2),
        p_ux = (\<lambda>k. 3 / 4), p_uy = (\<lambda>k. 0), p_uz = (\<lambda>k. 0), p_invalid = (\<lambda>k. False),
        p_size = 1, p_size_max = 1, p_enable_vector = True\<rparr>,
     s_incoming_part = (\<lambda>n. undefined), tile_offset = (\<lambda>t. if t \<le> 0 then 0 else 1),
     mv_part_offset = (\<lambda>t. 0), n_tiles_x = 1, n_tiles_y = 1, s_m_q = - 1, s_q = 1,
     s_dx0 = 1, s_dx1 = 1, s_dt = 1, s_nx0 = 2, s_nx1 = 2, s_iter = 0,
     s_moving_window = False, s_n_move = 0\<rparr>"

definition spec_slow :: t_species where
  "spec_slow = \<lparr>main_vector = \<lparr>p_ix = (\<lambda>k. 0), p_iy = (\<lambda>k. 0), p_x = (\<lambda>k. 0), p_y = (\<lambda>k. 1 / 2),
        p_ux = (\<lambda>k. - (1 / 2 ^ 30)), p_uy = (\<lambda>k. 0), p_uz = (\<lambda>k. 0), p_invalid = (\<lambda>k. False),
        p_size = 1, p_size_max = 1, p_enable_vector = True\<rparr>,
     s_incoming_part = (\<lambda>n. undefined), tile_offset = (\<lambda>t. if t \<le> 0 then 0 else 1),
     mv_part_offset = (\<lambda>t. 0), n_tiles_x = 1, n_tiles_y = 1, s_m_q = - 1, s_q = 1,
     s_dx0 = 1, s_dx1 = 1, s_dt = 1 / 2, s_nx0 = 2, s_nx1 = 2, s_iter = 0,
     s_moving_window = False, s_n_move = 0\<rparr>"


text \<open>Modelled from the spec: the position after a free step, \<open>x + dt\<cdot>u/(\<gamma>\<cdot>dx)\<close>, in exact arithmetic.\<close>

definition linear_position :: "real \<Rightarrow> real \<Rightarrow> real \<Rightarrow> real \<Rightarrow> real \<Rightarrow> real \<Rightarrow> real \<Rightarrow> real" where
  "linear_position pos u ux uy uz dt' dx' = pos + dt' * u / (sqrt (1 + (ux\<^sup>2 + uy\<^sup>2 + uz\<^sup>2)) * dx')"


lemma f32_free:
  "f32 (3 / 4) = 3 / 4"
  "f32 (13421773 / 16777216) = 13421773 / 16777216"
  "f32 (40265319 / 67108864) = 5033165 / 8388608"
  "f32 (9227469 / 8388608) = 9227469 / 8388608"
  "f32 (838861 / 8388608) = 838861 / 8388608"
  "f32 (1 / 2) = 1 / 2"
proof -
  show "f32 (3 / 4) = 3 / 4" using f32_dyadic [of 3 2] by simp
  show "f32 (13421773 / 16777216) = 13421773 / 16777216" using f32_dyadic [of 13421773 24] by simp
  show "f32 (9227469 / 8388608) = 9227469 / 8388608" using f32_dyadic [of 9227469 23] by simp
  show "f32 (838861 / 8388608) = 838861 / 8388608" using f32_dyadic [of 838861 23] by simp
  show "f32 (1 / 2) = 1 / 2" using f32_dyadic [of 1 1] by simp
  have "f32 (40265319 / 67108864)
        = of_int (round_even (40265319 / 67108864 / 2 powi (- 1 - 23))) * 2 powi (- 1 - 23)"
    by (rule f32_eval) (simp_all add: power_int_minus)
  also have "\<dots> = 5033165 / 8388608"
    by (simp add: round_even_def Let_def power_int_minus)
  finally show "f32 (40265319 / 67108864) = 5033165 / 8388608" .
qed

lemma f32_slow:
  "f32 (1 / 1152921504606846976) = 1 / 1152921504606846976"
  "f32 (1152921504606846977 / 1152921504606846976) = 1"
  "f32 (- (1 / 2147483648)) = - (1 / 2147483648)"
  "f32 (2147483647 / 2147483648) = 1"
proof -
  show "f32 (1 / 1152921504606846976) = 1 / 1152921504606846976"
    using f32_dyadic [of 1 60] by simp
  show "f32 (- (1 / 2147483648)) = - (1 / 2147483648)"
    using f32_dyadic [of "- 1" 31] by simp
  have "f32 (1152921504606846977 / 1152921504606846976)
        = of_int (round_even (1152921504606846977 / 1152921504606846976 / 2 powi (0 - 23))) * 2 powi (0 - 23)"
    by (rule f32_eval) (simp_all add: power_int_minus)
  also have "\<dots> = 1"
    by (simp add: round_even_def Let_def power_int_minus)
  finally show "f32 (1152921504606846977 / 1152921504606846976) = 1" .
  have "f32 (2147483647 / 2147483648)
        = of_int (round_even (2147483647 / 2147483648 / 2 powi (- 1 - 23))) * 2 powi (- 1 - 23)"
    by (rule f32_eval) (simp_all add: power_int_minus)
  also have "\<dots> = 1"
    by (simp add: round_even_def Let_def power_int_minus)
  finally show "f32 (2147483647 / 2147483648) = 1" .
qed


lemma linear_position_slow:
  "- 1 \<le> linear_position 0 (- (1 / 2 ^ 30)) (- (1 / 2 ^ 30)) 0 0 (1 / 2) 1"
  "linear_position 0 (- (1 / 2 ^ 30)) (- (1 / 2 ^ 30)) 0 0 (1 / 2) 1 < 0"
proof -
  define g :: real where "g = sqrt (1 + ((- (1 / 2 ^ 30))\<^sup>2 + 0\<^sup>2 + 0\<^sup>2))"
  have g: "1 \<le> g" unfolding g_def by simp
  have e: "linear_position 0 (- (1 / 2 ^ 30)) (- (1 / 2 ^ 30)) 0 0 (1 / 2) 1 = - (1 / 2 ^ 31) / g"
    unfolding linear_position_def g_def by simp
  have "1 / 2 ^ 31 / g \<le> 1 / 2 ^ 31 / 1" using g by (intro divide_left_mono) simp_all
  then show "- 1 \<le> linear_position 0 (- (1 / 2 ^ 30)) (- (1 / 2 ^ 30)) 0 0 (1 / 2) 1"
    unfolding e by simp
  have "0 < 1 / 2 ^ 31 / g" using g by simp
  then show "linear_position 0 (- (1 / 2 ^ 30)) (- (1 / 2 ^ 30)) 0 0 (1 / 2) 1 < 0"
    unfolding e by simp
qed


text \<open>
  C2 (as amended).  With \<open>E = B = 0\<close> everywhere, one call of the default particle advance
  leaves the momentum of every valid particle unchanged (the momentum components are
  single-precision numbers) and moves it by the linear step as the code evaluates it in single
  precision: with \<open>rg = 1 / sqrtf (1 + usq)\<close> for the sum of squares \<open>usq\<close> and
  \<open>x1 = x + (dt / dx[0]) * rg * ux\<close>, every operation rounded, \<open>ix\<close> grows by
  \<open>di = LTRIM(x1)\<close> and the stored fraction is \<open>x1 - di\<close> rounded; the same holds in \<open>y\<close>.
  When the new position is within one cell of the old cell, \<open>- 1 \<le> x1 < 2\<close>, the stored fraction
  lies in \<open>[0, 1]\<close>.  The magnitude bounds keep every intermediate value inside the range
  of single precision.
\<close>

theorem advance_free_particle:
  assumes "\<forall>m. E emf m = zero_fld" "\<forall>m. B emf m = zero_fld"
    and "0 \<le> k" "k < p_size (main_vector spec)" "\<not> p_invalid (main_vector spec) k"
    and "f32 (p_ux (main_vector spec) k) = p_ux (main_vector spec) k"
      "f32 (p_uy (main_vector spec) k) = p_uy (main_vector spec) k"
      "f32 (p_uz (main_vector spec) k) = p_uz (main_vector spec) k"
    and "moderate (p_ux (main_vector spec) k)" "moderate (p_uy (main_vector spec) k)"
      "moderate (p_uz (main_vector spec) k)" "moderate (p_x (main_vector spec) k)"
      "moderate (p_y (main_vector spec) k)"
    and "s_m_q spec \<noteq> 0" "s_dx0 spec \<noteq> 0" "s_dx1 spec \<noteq> 0"
      "moderate (s_dt spec / s_m_q spec)" "moderate (s_dt spec / s_dx0 spec)"
      "moderate (s_dt spec / s_dx1 spec)"
    and "\<bar>p_ix (main_vector spec) k\<bar> < 2 ^ 31 - 1" "\<bar>p_iy (main_vector spec) k\<bar> < 2 ^ 31 - 1"
  shows "(let mv = main_vector spec;
              mv' = main_vector (fst (spec_advance_openacc_default spec emf cur ly0));
              usq = fadd (fadd (fmul (p_ux mv k) (p_ux mv k)) (fmul (p_uy mv k) (p_uy mv k)))
                         (fmul (p_uz mv k) (p_uz mv k));
              rg = fdiv 1 (fsqrt (fadd 1 usq));
              x1 = fadd (p_x mv k) (fmul (fmul (fdiv (s_dt spec) (s_dx0 spec)) rg) (p_ux mv k));
              y1 = fadd (p_y mv k) (fmul (fmul (fdiv (s_dt spec) (s_dx1 spec)) rg) (p_uy mv k))
          in p_ux mv' k = p_ux mv k \<and> p_uy mv' k = p_uy mv k \<and> p_uz mv' k = p_uz mv k
           \<and> p_x mv' k = f32 (x1 - real_of_int (LTRIM x1)) \<and> p_ix mv' k = p_ix mv k + LTRIM x1
           \<and> p_y mv' k = f32 (y1 - real_of_int (LTRIM y1)) \<and> p_iy mv' k = p_iy mv k + LTRIM y1
           \<and> (- 1 \<le> x1 \<and> x1 < 2 \<longrightarrow> 0 \<le> p_x mv' k \<and> p_x mv' k \<le> 1)
           \<and> (- 1 \<le> y1 \<and> y1 < 2 \<longrightarrow> 0 \<le> p_y mv' k \<and> p_y mv' k \<le> 1))"
proof -
  let ?mv = "main_vector spec"
  let ?mv' = "main_vector (fst (spec_advance_openacc_default spec emf cur ly0))"
  let ?rg = "fdiv 1 (fsqrt (fadd 1 (fadd (fadd (fmul (p_ux ?mv k) (p_ux ?mv k))
                 (fmul (p_uy ?mv k) (p_uy ?mv k))) (fmul (p_uz ?mv k) (p_uz ?mv k)))))"
  let ?x1 = "fadd (p_x ?mv k) (fmul (fmul (fdiv (s_dt spec) (s_dx0 spec)) ?rg) (p_ux ?mv k))"
  let ?y1 = "fadd (p_y ?mv k) (fmul (fmul (fdiv (s_dt spec) (s_dx1 spec)) ?rg) (p_uy ?mv k))"
  have v: "advance_part_velocity \<lparr>vx = p_ux ?mv k, vy = p_uy ?mv k, vz = p_uz ?mv k\<rparr>
             zero_fld zero_fld tem = \<lparr>vx = p_ux ?mv k, vy = p_uy ?mv k, vz = p_uz ?mv k\<rparr>" for tem
    by (rule advance_part_velocity_zero) (use assms(6-8) in simp_all)
  have li: "f32 (real_of_int (LTRIM w)) = real_of_int (LTRIM w)" for w
    by (simp add: LTRIM_def)
  have "particle_at ?mv' k
       = free_push (f32 (f64 (f64 (0.5 * s_dt spec) / s_m_q spec)))
           (fdiv (s_dt spec) (s_dx0 spec)) (fdiv (s_dt spec) (s_dx1 spec)) (particle_at ?mv k)"
    by (rule advance_default_free [OF assms(1-5)])
  then have c: "p_ix ?mv' k = p_ix ?mv k + LTRIM ?x1" "p_iy ?mv' k = p_iy ?mv k + LTRIM ?y1"
      "p_x ?mv' k = fsub ?x1 (f32 (real_of_int (LTRIM ?x1)))"
      "p_y ?mv' k = fsub ?y1 (f32 (real_of_int (LTRIM ?y1)))"
      "p_ux ?mv' k = p_ux ?mv k" "p_uy ?mv' k = p_uy ?mv k" "p_uz ?mv' k = p_uz ?mv k"
    unfolding particle_at_def free_push_def Let_def case_prod_unfold fst_conv snd_conv v prod.inject
    by simp_all
  have rx: "- 1 \<le> ?x1 \<and> ?x1 < 2 \<longrightarrow> 0 \<le> p_x ?mv' k \<and> p_x ?mv' k \<le> 1"
    unfolding c using fsub_LTRIM_range [of ?x1] by simp
  have ry: "- 1 \<le> ?y1 \<and> ?y1 < 2 \<longrightarrow> 0 \<le> p_y ?mv' k \<and> p_y ?mv' k \<le> 1"
    unfolding c using fsub_LTRIM_range [of ?y1] by simp
  have sx: "p_x ?mv' k = f32 (?x1 - real_of_int (LTRIM ?x1))"
    unfolding c li by (simp add: fsub_def)
  have sy: "p_y ?mv' k = f32 (?y1 - real_of_int (LTRIM ?y1))"
    unfolding c li by (simp add: fsub_def)
  show ?thesis
    unfolding Let_def using c(1,2,5,6,7) sx sy rx ry by (intro conjI) assumption+
qed

theorem advance_free_particle_witness:
  "(let mv' = main_vector (fst (spec_advance_openacc_default spec_free emf_zero cur_ex2 0))
    in p_ux mv' 0 = 3 / 4 \<and> p_uy mv' 0 = 0 \<and> p_uz mv' 0 = 0
     \<and> p_x mv' 0 = 838861 / 8388608 \<and> p_ix mv' 0 = 1 \<and> p_y mv' 0 = 1 / 2 \<and> p_iy mv' 0 = 0
     \<and> 0 \<le> p_x mv' 0 \<and> p_x mv' 0 \<le> 1)"
proof -
  have s: "p_ux (main_vector spec_free) 0 = 3 / 4" "p_uy (main_vector spec_free) 0 = 0"
    "p_uz (main_vector spec_free) 0 = 0" "p_x (main_vector spec_free) 0 = 1 / 2"
    "p_y (main_vector spec_free) 0 = 1 / 2" "p_ix (main_vector spec_free) 0 = 0"
    "p_iy (main_vector spec_free) 0 = 0" "s_dt spec_free = 1" "s_dx0 spec_free = 1"
    "s_dx1 spec_free = 1" "s_m_q spec_free = - 1" "p_size (main_vector spec_free) = 1"
    "\<not> p_invalid (main_vector spec_free) 0"
    by (simp_all add: spec_free_def)
  have z: "\<forall>m. E emf_zero m = zero_fld" "\<forall>m. B emf_zero m = zero_fld"
    by (simp_all add: emf_zero_def)
  have x1: "fadd (1 / 2) (fmul (fmul (fdiv 1 1) (13421773 / 16777216)) (3 / 4)) = 9227469 / 8388608"
    by (simp add: fadd_def fmul_def fdiv_def f32_free)
  have y1: "fadd (1 / 2) (fmul (fmul (fdiv 1 1) (13421773 / 16777216)) 0) = 1 / 2"
    by (simp add: fadd_def fmul_def fdiv_def f32_free)
  have l: "LTRIM (9227469 / 8388608) = 1" "LTRIM (1 / 2) = 0"
    by (simp_all add: LTRIM_def)
  have m: "moderate (3 / 4)" "moderate 0" "moderate (1 / 2)" "moderate (1 / 1)" "moderate (1 / - 1)"
    by (simp_all add: moderate_def)
  have r: "f32 (9227469 / 8388608 - real_of_int 1) = 838861 / 8388608"
    "f32 (1 / 2 - real_of_int 0) = 1 / 2"
    by (simp_all add: f32_free)
  note t = advance_free_particle [of emf_zero 0 spec_free cur_ex2 0, unfolded Let_def s, OF z]
  have t': "p_ux (main_vector (fst (spec_advance_openacc_default spec_free emf_zero cur_ex2 0))) 0 = 3 / 4 \<and>
    p_uy (main_vector (fst (spec_advance_openacc_default spec_free emf_zero cur_ex2 0))) 0 = 0 \<and>
    p_uz (main_vector (fst (spec_advance_openacc_default spec_free emf_zero cur_ex2 0))) 0 = 0 \<and>
    p_x (main_vector (fst (spec_advance_openacc_default spec_free emf_zero cur_ex2 0))) 0 = 838861 / 8388608 \<and>
    p_ix (main_vector (fst (spec_advance_openacc_default spec_free emf_zero cur_ex2 0))) 0 = 0 + 1 \<and>
    p_y (main_vector (fst (spec_advance_openacc_default spec_free emf_zero cur_ex2 0))) 0 = 1 / 2 \<and>
    p_iy (main_vector (fst (spec_advance_openacc_default spec_free emf_zero cur_ex2 0))) 0 = 0 + 0 \<and>
    (- 1 \<le> (9227469 / 8388608 :: real) \<and> (9227469 / 8388608 :: real) < 2 \<longrightarrow>
      0 \<le> p_x (main_vector (fst (spec_advance_openacc_default spec_free emf_zero cur_ex2 0))) 0 \<and>
      p_x (main_vector (fst (spec_advance_openacc_default spec_free emf_zero cur_ex2 0))) 0 \<le> 1) \<and>
    (- 1 \<le> (1 / 2 :: real) \<and> (1 / 2 :: real) < 2 \<longrightarrow>
      0 \<le> p_y (main_vector (fst (spec_advance_openacc_default spec_free emf_zero cur_ex2 0))) 0 \<and>
      p_y (main_vector (fst (spec_advance_openacc_default spec_free emf_zero cur_ex2 0))) 0 \<le> 1)"
    using t [unfolded rg_three_quarters x1 y1 l r] m f32_free(1) s(13) by simp
  show ?thesis
    unfolding Let_def using t' by simp
qed


text \<open>
  The stored fraction can be \<open>1\<close>, and differs from the exact \<open>x + dt\<cdot>ux/(\<gamma>\<cdot>dx) - di\<close>: a slow
  particle at \<open>x = 0\<close> with \<open>ux = - 2\<^sup>-\<^sup>3\<^sup>0\<close>, \<open>dt = 1/2\<close> and \<open>dx = 1\<close> moves to
  \<open>x1 = - 2\<^sup>-\<^sup>3\<^sup>1\<close>, crosses into the cell on the left, and \<open>x1 + 1\<close> rounds to \<open>1\<close>.
\<close>

theorem advance_rounding_counterexample:
  "(let mv = main_vector spec_slow;
        mv' = main_vector (fst (spec_advance_openacc_default spec_slow emf_zero cur_ex2 0));
        x1 = linear_position (p_x mv 0) (p_ux mv 0) (p_ux mv 0) (p_uy mv 0) (p_uz mv 0)
               (s_dt spec_slow) (s_dx0 spec_slow)
    in \<not> p_invalid mv 0 \<and> - 1 \<le> x1 \<and> x1 < 2 \<and> LTRIM x1 = - 1
     \<and> p_ix mv' 0 = p_ix mv 0 + LTRIM x1
     \<and> p_x mv' 0 = 1 \<and> p_x mv' 0 \<noteq> x1 - real_of_int (LTRIM x1) \<and> \<not> p_x mv' 0 < 1)"
proof -
  have u: "f32 (- (1 / 1073741824)) = - (1 / 1073741824)" using f32_dyadic [of "- 1" 30] by simp
  have v: "advance_part_velocity \<lparr>vx = - (1 / 1073741824), vy = 0, vz = 0\<rparr> zero_fld zero_fld tem
           = \<lparr>vx = - (1 / 1073741824), vy = 0, vz = 0\<rparr>" for tem
    by (rule advance_part_velocity_zero) (use u in simp_all)
  have "particle_at (main_vector (fst (spec_advance_openacc_default spec_slow emf_zero cur_ex2 0))) 0
       = free_push (f32 (f64 (f64 (0.5 * s_dt spec_slow) / s_m_q spec_slow)))
           (fdiv (s_dt spec_slow) (s_dx0 spec_slow)) (fdiv (s_dt spec_slow) (s_dx1 spec_slow))
           (particle_at (main_vector spec_slow) 0)"
    by (rule advance_default_free) (simp_all add: emf_zero_def spec_slow_def)
  then have p: "p_x (main_vector (fst (spec_advance_openacc_default spec_slow emf_zero cur_ex2 0))) 0 = 1"
    "p_ix (main_vector (fst (spec_advance_openacc_default spec_slow emf_zero cur_ex2 0))) 0 = - 1"
    unfolding particle_at_def free_push_def Let_def case_prod_unfold fst_conv snd_conv prod.inject
    by (simp_all add: spec_slow_def v fadd_def fmul_def fdiv_def fsub_def fsqrt_def f32_slow f32_free
          LTRIM_def)
  have s: "p_ux (main_vector spec_slow) 0 = - (1 / 2 ^ 30)" "p_uy (main_vector spec_slow) 0 = 0"
    "p_uz (main_vector spec_slow) 0 = 0" "p_x (main_vector spec_slow) 0 = 0"
    "p_ix (main_vector spec_slow) 0 = 0" "s_dt spec_slow = 1 / 2" "s_dx0 spec_slow = 1"
    "\<not> p_invalid (main_vector spec_slow) 0"
    by (simp_all add: spec_slow_def)
  note lp = linear_position_slow
  have l: "LTRIM (linear_position 0 (- (1 / 2 ^ 30)) (- (1 / 2 ^ 30)) 0 0 (1 / 2) 1) = - 1"
    using lp by (simp add: LTRIM_def)
  show ?thesis
    unfolding Let_def s p l using lp s(8) by simp
qed

section \<open>Exclusive prefix sum (kernel_particles.c)\<close>

text \<open>
  \<open>prefix_sum_openacc_min\<close> and \<open>prefix_sum_openacc_full\<close> are the same code up to the block
  width (\<open>MIN_WARP_SIZE = 32\<close> resp. \<open>LOCAL_BUFFER_SIZE\<close>); \<open>prefix_sum_openacc_W\<close> is that
  code with the width as an argument.  Both call the dispatcher \<open>prefix_sum_openacc\<close> on the block
  sums, so the recursion is tied in the dispatcher, which is a partial function of the option
  monad: \<open>None\<close> is a call that does not return.  \<open>LOCAL_BUFFER_SIZE\<close> is the parameter \<open>lbs\<close>.
  \<^item> The entries of \<open>vector\<close>, \<open>local_buffer\<close> and \<open>block_sum\<close> are C \<open>int\<close>s: 32-bit words
    whose additions wrap around; \<open>sint\<close> reads a word as a signed integer.  Indices and
    sizes are integers (they stay below \<open>2 ^ 31\<close> for the sizes considered).
  \<^item> \<open>ceil((float) size / W)\<close> is the ceiling of the exact quotient (\<open>(float) size\<close> is exact
    up to \<open>2 ^ 24\<close>, and \<open>W\<close> is a power of two).
  \<^item> \<open>for (offset = 1; offset < W; offset *= 2)\<close> is \<open>up_sweep 1 W\<close>; the test \<open>0 < offset\<close>
    holds throughout and only serves the termination proof.
  \<^item> \<open>for (offset = W >> 1; offset > 0; offset >>= 1)\<close> is \<open>down_sweep (W div 2) W\<close>.
  \<^item> \<open>local_buffer\<close> and the \<open>malloc\<close>ed \<open>block_sum\<close> start with unspecified contents.
\<close>

type_synonym int_array = "int \<Rightarrow> 32 word"

function up_sweep :: "int \<Rightarrow> int \<Rightarrow> int_array \<Rightarrow> int_array" where
  "up_sweep offset W local_buffer =
     (if offset < W \<and> 0 < offset then
        up_sweep (offset * 2) W
          (for_step (offset - 1) W (2 * offset)
             (\<lambda>i lb. lb(i + offset := lb (i + offset) + lb i)) local_buffer)
      else local_buffer)"
  by pat_completeness auto
termination
  by (relation "measure (\<lambda>(offset, W, lb). nat (W - offset))") auto

declare up_sweep.simps [simp del]

function down_sweep :: "int \<Rightarrow> int \<Rightarrow> int_array \<Rightarrow> int_array" where
  "down_sweep offset W local_buffer =
     (if offset > 0 then
        down_sweep (offset div 2) W
          (for_step (offset - 1) W (2 * offset)
             (\<lambda>i lb. let temp = lb i;
                          lb1 = lb(i := lb (i + offset))
                      in lb1(i + offset := lb1 (i + offset) + temp)) local_buffer)
      else local_buffer)"
  by pat_completeness auto
termination
  by (relation "measure (\<lambda>(offset, W, lb). nat offset)") auto

declare down_sweep.simps [simp del]

definition scan_block :: "int \<Rightarrow> int \<Rightarrow> int \<Rightarrow> int_array \<times> int_array \<Rightarrow> int_array \<times> int_array" where
  "scan_block W size' block_id st =
     (let (vector, block_sum) = st;
          begin_idx = block_id * W;
          lb = for_loop 0 W (\<lambda>i lb. if i + begin_idx < size' then lb(i := vector (i + begin_idx))
                                      else lb(i := 0)) (\<lambda>i. undefined);
          lb = up_sweep 1 W lb;
          block_sum = block_sum(block_id := lb (W - 1));
          lb = lb(W - 1 := 0);
          lb = down_sweep (W div 2) W lb;
          vector = for_loop 0 W (\<lambda>i v. if i + begin_idx < size' then v(i + begin_idx := lb i) else v)
                     vector
      in (vector, block_sum))"

definition add_block_sums :: "int \<Rightarrow> int \<Rightarrow> int \<Rightarrow> int_array \<Rightarrow> int_array \<Rightarrow> int_array" where
  "add_block_sums W size' num_blocks block_sum vector =
     for_loop 1 num_blocks (\<lambda>block_id v.
       let begin_idx = block_id * W in
       for_loop 0 W (\<lambda>i v. if i + begin_idx < size'
                            then v(i + begin_idx := v (i + begin_idx) + block_sum block_id) else v) v)
       vector"

definition num_blocks_of :: "int \<Rightarrow> int \<Rightarrow> int" where
  "num_blocks_of size' W = \<lceil>real_of_int size' / real_of_int W\<rceil>"

partial_function (option) prefix_sum_openacc :: "int \<Rightarrow> int_array \<Rightarrow> int \<Rightarrow> int_array option" where
  "prefix_sum_openacc lbs vector size' =
     (let W = (if size' < lbs div 4 then 32 else lbs);
          num_blocks = num_blocks_of size' W;
          (vector1, block_sum) = for_loop 0 num_blocks (scan_block W size') (vector, (\<lambda>i. undefined))
      in if num_blocks > 1 then
           Option.bind (prefix_sum_openacc lbs block_sum num_blocks)
             (\<lambda>block_sum'. Some (add_block_sums W size' num_blocks block_sum' vector1))
         else Some vector1)"

definition prefix_sum_openacc_W :: "int \<Rightarrow> int \<Rightarrow> int_array \<Rightarrow> int \<Rightarrow> int_array option" where
  "prefix_sum_openacc_W W lbs vector size' =
     (let num_blocks = num_blocks_of size' W;
          (vector1, block_sum) = for_loop 0 num_blocks (scan_block W size') (vector, (\<lambda>i. undefined))
      in if num_blocks > 1 then
           Option.bind (prefix_sum_openacc lbs block_sum num_blocks)
             (\<lambda>block_sum'. Some (add_block_sums W size' num_blocks block_sum' vector1))
         else Some vector1)"

definition prefix_sum_openacc_min :: "int \<Rightarrow> int_array \<Rightarrow> int \<Rightarrow> int_array option" where
  "prefix_sum_openacc_min lbs vector size' = prefix_sum_openacc_W 32 lbs vector size'"

definition prefix_sum_openacc_full :: "int \<Rightarrow> int_array \<Rightarrow> int \<Rightarrow> int_array option" where
  "prefix_sum_openacc_full lbs vector size' = prefix_sum_openacc_W lbs lbs vector size'"

lemma prefix_sum_openacc_dispatch:
  "prefix_sum_openacc lbs vector size' =
     (if size' < lbs div 4 then prefix_sum_openacc_min lbs vector size'
      else prefix_sum_openacc_full lbs vector size')"
  by (subst prefix_sum_openacc.simps)
     (simp add: prefix_sum_openacc_min_def prefix_sum_openacc_full_def prefix_sum_openacc_W_def Let_def)

definition rsum :: "int_array \<Rightarrow> int \<Rightarrow> int \<Rightarrow> 32 word" where
  "rsum a lo hi = sum a {lo..<hi}"

lemma rsum_concat: "lo \<le> mid \<Longrightarrow> mid \<le> hi \<Longrightarrow> rsum a lo mid + rsum a mid hi = rsum a lo hi"
  unfolding rsum_def
  by (subst sum.union_disjoint [symmetric]) (auto simp: ivl_disj_un_two)

lemma rsum_empty [simp]: "rsum a lo lo = 0"
  by (simp add: rsum_def)

lemma rsum_single: "rsum a lo (lo + 1) = a lo"
proof -
  have "{lo..<lo + 1} = {lo}" by auto
  then show ?thesis by (simp add: rsum_def)
qed

lemma up_level:
  fixes b :: int_array and d :: int
  assumes "0 < d"
  shows "for_step i n (2 * d) (\<lambda>i lb. lb(i + d := lb (i + d) + lb i)) b q =
         (if i + d \<le> q \<and> q < n + d \<and> (2 * d) dvd (q - (i + d)) then b q + b (q - d) else b q)"
proof (induction i n "2 * d" "\<lambda>i (lb :: int_array). lb(i + d := lb (i + d) + lb i)" b
       rule: for_step.induct)
  case (1 i n b)
  show ?case
  proof (cases "i < n")
    case False
    then show ?thesis by auto
  next
    case True
    let ?b = "b(i + d := b (i + d) + b i)"
    have step: "for_step i n (2 * d) (\<lambda>i lb. lb(i + d := lb (i + d) + lb i)) b
          = for_step (i + 2 * d) n (2 * d) (\<lambda>i lb. lb(i + d := lb (i + d) + lb i)) ?b"
      using True assms by simp
    have IH: "for_step (i + 2 * d) n (2 * d) (\<lambda>i lb. lb(i + d := lb (i + d) + lb i)) ?b q =
         (if i + 2 * d + d \<le> q \<and> q < n + d \<and> (2 * d) dvd (q - (i + 2 * d + d))
          then ?b q + ?b (q - d) else ?b q)"
      using True assms by (intro 1) auto
    have dv: "(2 * d) dvd (q - (i + 2 * d + d)) \<longleftrightarrow> (2 * d) dvd (q - (i + d))"
    proof -
      have "q - (i + d) = (q - (i + 2 * d + d)) + 2 * d" by simp
      then show ?thesis by (metis dvd_add_triv_right_iff)
    qed
    have far: "i + d \<le> q \<Longrightarrow> q \<noteq> i + d \<Longrightarrow> (2 * d) dvd (q - (i + d)) \<Longrightarrow> i + 2 * d + d \<le> q"
    proof -
      assume a: "i + d \<le> q" "q \<noteq> i + d" "(2 * d) dvd (q - (i + d))"
      then have "0 < q - (i + d)" by simp
      with a(3) have "2 * d \<le> q - (i + d)" by (rule zdvd_imp_le)
      then show ?thesis by simp
    qed
    show ?thesis
      unfolding step IH dv
      using True assms far by auto
  qed
qed

lemma down_level:
  fixes b :: int_array and d :: int
  assumes "0 < d"
  shows "for_step i n (2 * d) (\<lambda>i lb. let temp = lb i; lb1 = lb(i := lb (i + d))
                      in lb1(i + d := lb1 (i + d) + temp)) b q =
         (if i \<le> q \<and> q < n \<and> (2 * d) dvd (q - i) then b (q + d)
          else if i + d \<le> q \<and> q < n + d \<and> (2 * d) dvd (q - (i + d)) then b q + b (q - d)
          else b q)"
proof (induction i n "2 * d" "\<lambda>i (lb :: int_array). let temp = lb i; lb1 = lb(i := lb (i + d))
                      in lb1(i + d := lb1 (i + d) + temp)" b
       rule: for_step.induct)
  case (1 i n b)
  let ?body = "\<lambda>i (lb :: int_array). let temp = lb i; lb1 = lb(i := lb (i + d))
                      in lb1(i + d := lb1 (i + d) + temp)"
  let ?rhs = "if i \<le> q \<and> q < n \<and> (2 * d) dvd (q - i) then b (q + d)
          else if i + d \<le> q \<and> q < n + d \<and> (2 * d) dvd (q - (i + d)) then b q + b (q - d)
          else b q"
  show ?case
  proof (cases "i < n")
    case False
    then show ?thesis by auto
  next
    case True
    let ?b = "?body i b"
    have b': "?b = b(i := b (i + d), i + d := b (i + d) + b i)"
      using assms by (simp add: Let_def)
    have step: "for_step i n (2 * d) ?body b = for_step (i + 2 * d) n (2 * d) ?body ?b"
      using True assms by simp
    have IH: "for_step (i + 2 * d) n (2 * d) ?body ?b q =
         (if i + 2 * d \<le> q \<and> q < n \<and> (2 * d) dvd (q - (i + 2 * d)) then ?b (q + d)
          else if i + 2 * d + d \<le> q \<and> q < n + d \<and> (2 * d) dvd (q - (i + 2 * d + d))
          then ?b q + ?b (q - d) else ?b q)"
      using True assms by (intro 1) auto
    have dv: "(2 * d) dvd (q - (i + 2 * d + d)) \<longleftrightarrow> (2 * d) dvd (q - (i + d))"
    proof -
      have "q - (i + d) = (q - (i + 2 * d + d)) + 2 * d" by simp
      then show ?thesis by (metis dvd_add_triv_right_iff)
    qed
    have dv2: "(2 * d) dvd (q - (i + 2 * d)) \<longleftrightarrow> (2 * d) dvd (q - i)"
    proof -
      have "q - i = (q - (i + 2 * d)) + 2 * d" by simp
      then show ?thesis by (metis dvd_add_triv_right_iff)
    qed
    have far: "i + d \<le> q \<Longrightarrow> q \<noteq> i + d \<Longrightarrow> (2 * d) dvd (q - (i + d)) \<Longrightarrow> i + 2 * d + d \<le> q"
    proof -
      assume a: "i + d \<le> q" "q \<noteq> i + d" "(2 * d) dvd (q - (i + d))"
      then have "0 < q - (i + d)" by simp
      with a(3) have "2 * d \<le> q - (i + d)" by (rule zdvd_imp_le)
      then show ?thesis by simp
    qed
    have far2: "i \<le> q \<Longrightarrow> q \<noteq> i \<Longrightarrow> (2 * d) dvd (q - i) \<Longrightarrow> i + 2 * d \<le> q"
    proof -
      assume a: "i \<le> q" "q \<noteq> i" "(2 * d) dvd (q - i)"
      then have "0 < q - i" by simp
      with a(3) have "2 * d \<le> q - i" by (rule zdvd_imp_le)
      then show ?thesis by simp
    qed
    have excl: "(2 * d) dvd (q - i) \<Longrightarrow> (2 * d) dvd (q - (i + d)) \<Longrightarrow> False"
    proof -
      assume "(2 * d) dvd (q - i)" "(2 * d) dvd (q - (i + d))"
      then have "(2 * d) dvd ((q - i) - (q - (i + d)))" by (rule dvd_diff)
      then have "(2 * d) dvd d" by simp
      then have "2 * d \<le> d" using assms by (intro zdvd_imp_le) auto
      then show False using assms by simp
    qed
    have res: "for_step i n (2 * d) ?body b q =
         (if i + 2 * d \<le> q \<and> q < n \<and> (2 * d) dvd (q - i) then ?b (q + d)
          else if i + 2 * d + d \<le> q \<and> q < n + d \<and> (2 * d) dvd (q - (i + d))
          then ?b q + ?b (q - d) else ?b q)"
      unfolding step IH dv dv2 ..
    consider (A0) "q = i" | (A1) "i + 2 * d \<le> q" "q < n" "(2 * d) dvd (q - i)"
      | (B0) "q = i + d" | (B1) "i + 2 * d + d \<le> q" "q < n + d" "(2 * d) dvd (q - (i + d))"
      | (C) "\<not> (i \<le> q \<and> q < n \<and> (2 * d) dvd (q - i))"
            "\<not> (i + d \<le> q \<and> q < n + d \<and> (2 * d) dvd (q - (i + d)))"
      using far far2 by blast
    then show ?thesis
    proof cases
      case A0
      have c1: "\<not> (i + 2 * d \<le> q \<and> q < n \<and> (2 * d) dvd (q - i))" using A0 assms by simp
      have c2: "\<not> (i + 2 * d + d \<le> q \<and> q < n + d \<and> (2 * d) dvd (q - (i + d)))"
        using A0 assms by simp
      have t: "i \<le> q \<and> q < n \<and> (2 * d) dvd (q - i)" using A0 True by simp
      have "for_step i n (2 * d) ?body b q = ?b q" by (simp only: simp_thms res c1 c2 if_False)
      also have "\<dots> = b (q + d)" unfolding b' using A0 assms by simp
      also have "\<dots> = ?rhs" by (simp only: simp_thms t if_True)
      finally show ?thesis .
    next
      case A1
      have t1: "i + 2 * d \<le> q \<and> q < n \<and> (2 * d) dvd (q - i)" using A1 by simp
      have t: "i \<le> q \<and> q < n \<and> (2 * d) dvd (q - i)" using A1 assms by simp
      have "for_step i n (2 * d) ?body b q = ?b (q + d)" by (simp only: simp_thms res t1 if_True)
      also have "\<dots> = b (q + d)" unfolding b' using A1 assms by simp
      also have "\<dots> = ?rhs" by (simp only: simp_thms t if_True)
      finally show ?thesis .
    next
      case B0
      have nd: "\<not> (2 * d) dvd (q - i)" using excl B0 by auto
      have c1: "\<not> (i + 2 * d \<le> q \<and> q < n \<and> (2 * d) dvd (q - i))" using nd by simp
      have c2: "\<not> (i + 2 * d + d \<le> q \<and> q < n + d \<and> (2 * d) dvd (q - (i + d)))"
        using B0 assms by simp
      have f: "\<not> (i \<le> q \<and> q < n \<and> (2 * d) dvd (q - i))" using nd by simp
      have t: "i + d \<le> q \<and> q < n + d \<and> (2 * d) dvd (q - (i + d))" using B0 True by simp
      have "for_step i n (2 * d) ?body b q = ?b q" by (simp only: simp_thms res c1 c2 if_False)
      also have "\<dots> = b q + b (q - d)" unfolding b' using B0 assms by simp
      also have "\<dots> = ?rhs" by (simp only: simp_thms f t if_False if_True)
      finally show ?thesis .
    next
      case B1
      have nd: "\<not> (2 * d) dvd (q - i)" using excl B1 by blast
      have c1: "\<not> (i + 2 * d \<le> q \<and> q < n \<and> (2 * d) dvd (q - i))" using nd by simp
      have t2: "i + 2 * d + d \<le> q \<and> q < n + d \<and> (2 * d) dvd (q - (i + d))" using B1 by simp
      have f: "\<not> (i \<le> q \<and> q < n \<and> (2 * d) dvd (q - i))" using nd by simp
      have t: "i + d \<le> q \<and> q < n + d \<and> (2 * d) dvd (q - (i + d))" using B1 assms by simp
      have "for_step i n (2 * d) ?body b q = ?b q + ?b (q - d)" by (simp only: simp_thms res c1 t2 if_False if_True)
      also have "\<dots> = b q + b (q - d)" unfolding b' using B1 assms by simp
      also have "\<dots> = ?rhs" by (simp only: simp_thms f t if_False if_True)
      finally show ?thesis .
    next
      case C
      have qi: "q \<noteq> i" using C(1) True by auto
      have qid: "q \<noteq> i + d" using C(2) True by auto
      have c1: "\<not> (i + 2 * d \<le> q \<and> q < n \<and> (2 * d) dvd (q - i))" using C(1) assms by auto
      have c2: "\<not> (i + 2 * d + d \<le> q \<and> q < n + d \<and> (2 * d) dvd (q - (i + d)))"
        using C(2) assms by auto
      have "for_step i n (2 * d) ?body b q = ?b q" by (simp only: simp_thms res c1 c2 if_False)
      also have "\<dots> = b q" unfolding b' using qi qid by simp
      also have "\<dots> = ?rhs" by (simp only: simp_thms C if_False)
      finally show ?thesis .
    qed
  qed
qed

lemma for_loop_inv:
  assumes "P lo s" "lo \<le> hi"
    and "\<And>i s. lo \<le> i \<Longrightarrow> i < hi \<Longrightarrow> P i s \<Longrightarrow> P (i + 1) (body i s)"
  shows "P hi (for_loop lo hi body s)"
  using assms
proof (induction lo hi body s rule: for_loop.induct)
  case (1 i n body s)
  show ?case
  proof (cases "i < n")
    case True
    have "P n (for_loop (i + 1) n body (body i s))"
      using True "1.prems" by (intro "1.IH") auto
    then show ?thesis using True by simp
  next
    case False
    then have "i = n" using "1.prems"(2) by simp
    then show ?thesis using "1.prems"(1) by simp
  qed
qed

fun lvl :: "nat \<Rightarrow> int \<Rightarrow> nat" where
  "lvl 0 p = 0"
| "lvl (Suc l) p = (if 2 ^ Suc l dvd p + 1 then Suc l else lvl l p)"

lemma lvl_top: "(2::int) ^ l dvd p + 1 \<Longrightarrow> lvl l p = l"
  by (cases l) auto

lemma pow_dvd_half: "(2::int) ^ Suc k dvd x \<Longrightarrow> 2 ^ k dvd x"
proof -
  assume "(2::int) ^ Suc k dvd x"
  then have "2 ^ k * 2 dvd x" by (simp add: mult.commute)
  then show "(2::int) ^ k dvd x" by (rule dvd_mult_left)
qed

lemma dvd_pos_le: "(d::int) dvd x \<Longrightarrow> 0 < x \<Longrightarrow> d \<le> x"
  by (rule zdvd_imp_le)

lemma odd_multiple:
  fixes d x :: int
  assumes "0 < d"
  shows "2 * d dvd (x - d) \<longleftrightarrow> d dvd x \<and> \<not> 2 * d dvd x"
proof
  assume a: "2 * d dvd (x - d)"
  then have "d dvd (x - d)" by (rule dvd_mult_right)
  then have "d dvd (x - d) + d" by (intro dvd_add dvd_refl)
  then have dx: "d dvd x" by simp
  have "\<not> 2 * d dvd x"
  proof
    assume "2 * d dvd x"
    then have "2 * d dvd (x - (x - d))" using a by (rule dvd_diff)
    then have "2 * d dvd d" by simp
    then have "2 * d \<le> d" using assms by (intro zdvd_imp_le) auto
    then show False using assms by simp
  qed
  with dx show "d dvd x \<and> \<not> 2 * d dvd x" by simp
next
  assume a: "d dvd x \<and> \<not> 2 * d dvd x"
  then obtain c where c: "x = d * c" by (auto elim: dvdE)
  have "odd c"
  proof
    assume "even c"
    then obtain e where "c = 2 * e" by (auto elim: evenE)
    then have "x = 2 * d * e" using c by simp
    then show False using a by simp
  qed
  then obtain e where "c = 2 * e + 1" by (auto elim: oddE)
  then have "x - d = 2 * d * e" using c by (simp add: algebra_simps)
  then show "2 * d dvd (x - d)" by simp
qed

definition up_inv :: "int_array \<Rightarrow> nat \<Rightarrow> int_array \<Rightarrow> int \<Rightarrow> bool" where
  "up_inv a l b W \<longleftrightarrow> (\<forall>p. 0 \<le> p \<and> p < W \<longrightarrow> b p = rsum a (p + 1 - 2 ^ lvl l p) (p + 1))"

lemma up_level_inv:
  fixes d W :: int
  assumes inv: "up_inv a l b W" and lm: "l < m" and d: "d = 2 ^ l" and W: "W = 2 ^ m"
  shows "up_inv a (Suc l) (for_step (d - 1) W (2 * d) (\<lambda>i lb. lb(i + d := lb (i + d) + lb i)) b) W"
  unfolding up_inv_def
proof (intro allI impI)
  fix q :: int
  assume q: "0 \<le> q \<and> q < W"
  have dpos: "0 < d" unfolding d by simp
  have d2: "(2::int) ^ Suc l = 2 * d" unfolding d by simp
  have lev: "for_step (d - 1) W (2 * d) (\<lambda>i lb. lb(i + d := lb (i + d) + lb i)) b q =
      (if d - 1 + d \<le> q \<and> q < W + d \<and> (2 * d) dvd (q - (d - 1 + d))
       then b q + b (q - d) else b q)"
    by (rule up_level [OF dpos])
  have eq: "q - (d - 1 + d) = (q + 1) - 2 * d" by simp
  have dv: "(2 * d) dvd (q - (d - 1 + d)) \<longleftrightarrow> (2 * d) dvd q + 1"
  proof -
    have "q + 1 = (q + 1 - 2 * d) + 2 * d" by simp
    then have "(2 * d) dvd (q + 1 - 2 * d) \<longleftrightarrow> (2 * d) dvd q + 1"
      by (metis dvd_add_triv_right_iff)
    then show ?thesis unfolding eq by simp
  qed
  show "for_step (d - 1) W (2 * d) (\<lambda>i lb. lb(i + d := lb (i + d) + lb i)) b q
        = rsum a (q + 1 - 2 ^ lvl (Suc l) q) (q + 1)"
  proof (cases "(2 * d) dvd q + 1")
    case True
    have "0 < q + 1" using q by simp
    with True have ge: "2 * d \<le> q + 1" by (rule dvd_pos_le)
    have lt2: "q < W + d" using q dpos by linarith
    have t: "d - 1 + d \<le> q \<and> q < W + d \<and> (2 * d) dvd (q - (d - 1 + d))"
      using ge lt2 dv True by simp
    have "d * 2 dvd q + 1" using True by (simp add: mult.commute)
    then have d1: "d dvd q + 1" by (rule dvd_mult_left)
    have "d dvd (q + 1) - d" using d1 by simp
    then have d1': "d dvd (q - d) + 1" by (simp add: algebra_simps)
    have l1: "lvl l q = l" using d1 unfolding d by (rule lvl_top)
    have l2: "lvl l (q - d) = l" using d1' unfolding d by (rule lvl_top)
    have l3: "lvl (Suc l) q = Suc l" using True unfolding d2 [symmetric] by (rule lvl_top)
    have "b q = rsum a (q + 1 - 2 ^ lvl l q) (q + 1)"
      using inv q unfolding up_inv_def by blast
    then have bq: "b q = rsum a (q + 1 - d) (q + 1)" unfolding l1 d [symmetric] .
    have r: "0 \<le> q - d \<and> q - d < W" using ge q dpos by linarith
    have "b (q - d) = rsum a (q - d + 1 - 2 ^ lvl l (q - d)) (q - d + 1)"
      using inv r unfolding up_inv_def by blast
    then have "b (q - d) = rsum a (q - d + 1 - d) (q - d + 1)" unfolding l2 d [symmetric] .
    then have bqd: "b (q - d) = rsum a (q + 1 - 2 * d) (q + 1 - d)"
      by (simp add: algebra_simps)
    have "for_step (d - 1) W (2 * d) (\<lambda>i lb. lb(i + d := lb (i + d) + lb i)) b q
          = b q + b (q - d)"
      unfolding lev using t by (simp only: simp_thms if_True)
    also have "\<dots> = rsum a (q + 1 - 2 * d) (q + 1)"
      unfolding bq bqd using rsum_concat [of "q + 1 - 2 * d" "q + 1 - d" "q + 1" a] dpos by (simp add: add.commute)
    finally show ?thesis unfolding l3 d2 .
  next
    case False
    have f: "\<not> (d - 1 + d \<le> q \<and> q < W + d \<and> (2 * d) dvd (q - (d - 1 + d)))"
      using dv False by simp
    have l3: "lvl (Suc l) q = lvl l q" using False unfolding d2 [symmetric] by simp
    have "for_step (d - 1) W (2 * d) (\<lambda>i lb. lb(i + d := lb (i + d) + lb i)) b q = b q"
      unfolding lev using f by (simp only: simp_thms if_False)
    also have "\<dots> = rsum a (q + 1 - 2 ^ lvl l q) (q + 1)"
      using inv q unfolding up_inv_def by blast
    finally show ?thesis unfolding l3 .
  qed
qed

lemma up_sweep_inv:
  assumes "up_inv a l b (2 ^ m)" "l \<le> m"
  shows "up_inv a m (up_sweep (2 ^ l) (2 ^ m) b) (2 ^ m)"
  using assms
proof (induction "m - l" arbitrary: l b)
  case 0
  then have "l = m" by simp
  then show ?case using 0 by (subst up_sweep.simps) simp
next
  case (Suc n)
  then have lm: "l < m" by simp
  have lt: "(2::int) ^ l < 2 ^ m" using lm by simp
  let ?b = "for_step (2 ^ l - 1) (2 ^ m) (2 * 2 ^ l) (\<lambda>i lb. lb(i + 2 ^ l := lb (i + 2 ^ l) + lb i)) b"
  have step: "up_sweep (2 ^ l) (2 ^ m) b = up_sweep (2 ^ Suc l) (2 ^ m) ?b"
    using lt by (subst up_sweep.simps) (simp add: mult.commute)
  show ?case
    unfolding step
  proof (rule Suc.hyps(1))
    show "n = m - Suc l" using Suc.hyps(2) by simp
    show "up_inv a (Suc l) ?b (2 ^ m)"
      by (rule up_level_inv [OF Suc.prems(1) lm refl refl])
    show "Suc l \<le> m" using lm by simp
  qed
qed

definition down_inv :: "int_array \<Rightarrow> nat \<Rightarrow> int_array \<Rightarrow> int \<Rightarrow> bool" where
  "down_inv a k b W \<longleftrightarrow>
     (\<forall>p. 0 \<le> p \<and> p < W \<longrightarrow>
        b p = (if 2 ^ k dvd p + 1 then rsum a 0 (p + 1 - 2 ^ k) else rsum a (p + 1 - 2 ^ lvl k p) (p + 1)))"

lemma down_level_inv:
  fixes d W :: int
  assumes inv: "down_inv a (Suc k) b W" and km: "k < m" and d: "d = 2 ^ k" and W: "W = 2 ^ m"
  shows "down_inv a k
           (for_step (d - 1) W (2 * d) (\<lambda>i lb. let temp = lb i; lb1 = lb(i := lb (i + d))
                      in lb1(i + d := lb1 (i + d) + temp)) b) W"
  unfolding down_inv_def
proof (intro allI impI)
  fix q :: int
  assume q: "0 \<le> q \<and> q < W"
  let ?body = "\<lambda>i (lb :: int_array). let temp = lb i; lb1 = lb(i := lb (i + d))
                      in lb1(i + d := lb1 (i + d) + temp)"
  let ?goal = "if 2 ^ k dvd q + 1 then rsum a 0 (q + 1 - 2 ^ k) else rsum a (q + 1 - 2 ^ lvl k q) (q + 1)"
  have dpos: "0 < d" unfolding d by simp
  have d2: "(2::int) ^ Suc k = 2 * d" unfolding d by simp
  have "(2::int) ^ Suc k dvd 2 ^ m" using km by (intro le_imp_power_dvd) simp
  then have W2: "(2 * d) dvd W" unfolding d2 W .
  have q1: "0 < q + 1" using q by simp
  have lev: "for_step (d - 1) W (2 * d) ?body b q =
      (if d - 1 \<le> q \<and> q < W \<and> (2 * d) dvd (q - (d - 1)) then b (q + d)
       else if d - 1 + d \<le> q \<and> q < W + d \<and> (2 * d) dvd (q - (d - 1 + d)) then b q + b (q - d)
       else b q)"
    by (rule down_level [OF dpos])
  have e1: "q - (d - 1) = (q + 1) - d" by simp
  have dv1: "(2 * d) dvd (q - (d - 1)) \<longleftrightarrow> d dvd q + 1 \<and> \<not> (2 * d) dvd q + 1"
    unfolding e1 by (rule odd_multiple [OF dpos])
  have e2: "q - (d - 1 + d) = (q + 1) - 2 * d" by simp
  have dv2: "(2 * d) dvd (q - (d - 1 + d)) \<longleftrightarrow> (2 * d) dvd q + 1"
  proof -
    have "q + 1 = (q + 1 - 2 * d) + 2 * d" by simp
    then have "(2 * d) dvd (q + 1 - 2 * d) \<longleftrightarrow> (2 * d) dvd q + 1"
      by (metis dvd_add_triv_right_iff)
    then show ?thesis unfolding e2 by simp
  qed
  have half: "(2 * d) dvd x \<Longrightarrow> d dvd x" for x
  proof -
    assume "(2 * d) dvd x"
    then have "d * 2 dvd x" by (simp add: mult.commute)
    then show "d dvd x" by (rule dvd_mult_left)
  qed
  consider (top) "(2 * d) dvd q + 1" | (mid) "d dvd q + 1" "\<not> (2 * d) dvd q + 1" | (low) "\<not> d dvd q + 1"
    by blast
  then show "for_step (d - 1) W (2 * d) ?body b q = ?goal"
  proof cases
    case top
    have d1: "d dvd q + 1" using top by (rule half)
    have ge: "2 * d \<le> q + 1" using top q1 by (rule dvd_pos_le)
    have lt2: "q < W + d" using q dpos by linarith
    have c1: "\<not> (d - 1 \<le> q \<and> q < W \<and> (2 * d) dvd (q - (d - 1)))" using dv1 top by simp
    have c2: "d - 1 + d \<le> q \<and> q < W + d \<and> (2 * d) dvd (q - (d - 1 + d))"
      using ge lt2 dv2 top by simp
    have "for_step (d - 1) W (2 * d) ?body b q = b q + b (q - d)"
      unfolding lev by (simp only: simp_thms c1 c2 if_False if_True)
    moreover have "b q = rsum a 0 (q + 1 - 2 * d)"
    proof -
      have "b q = (if 2 ^ Suc k dvd q + 1 then rsum a 0 (q + 1 - 2 ^ Suc k)
                   else rsum a (q + 1 - 2 ^ lvl (Suc k) q) (q + 1))"
        using inv q unfolding down_inv_def by blast
      then show ?thesis unfolding d2 using top by (simp only: if_True)
    qed
    moreover have "b (q - d) = rsum a (q + 1 - 2 * d) (q + 1 - d)"
    proof -
      have r: "0 \<le> q - d \<and> q - d < W" using ge q dpos by linarith
      have e: "q - d + 1 = q + 1 - d" by simp
      have nd: "\<not> (2 * d) dvd (q - d + 1)"
        unfolding e using odd_multiple [OF dpos, of "q + 1"] top by simp
      have dd: "d dvd q - d + 1" unfolding e using d1 by simp
      have l: "lvl (Suc k) (q - d) = k"
        using nd lvl_top [of k "q - d"] dd unfolding d2 [symmetric] d by simp
      have "b (q - d) = (if 2 ^ Suc k dvd q - d + 1 then rsum a 0 (q - d + 1 - 2 ^ Suc k)
                   else rsum a (q - d + 1 - 2 ^ lvl (Suc k) (q - d)) (q - d + 1))"
        using inv r unfolding down_inv_def by blast
      then have "b (q - d) = rsum a (q - d + 1 - 2 ^ lvl (Suc k) (q - d)) (q - d + 1)"
        unfolding d2 using nd by (simp only: if_False)
      then have "b (q - d) = rsum a (q - d + 1 - d) (q - d + 1)"
        unfolding l d [symmetric] .
      then show ?thesis by (simp add: algebra_simps)
    qed
    moreover have "rsum a 0 (q + 1 - 2 * d) + rsum a (q + 1 - 2 * d) (q + 1 - d) = rsum a 0 (q + 1 - d)"
      by (rule rsum_concat) (use ge dpos in auto)
    moreover have "?goal = rsum a 0 (q + 1 - d)"
      unfolding d [symmetric] using d1 by simp
    ultimately show ?thesis by simp
  next
    case mid
    have ge: "d \<le> q + 1" using mid(1) q1 by (rule dvd_pos_le)
    have c1: "d - 1 \<le> q \<and> q < W \<and> (2 * d) dvd (q - (d - 1))" using ge q dv1 mid by simp
    have x: "(2 * d) dvd (q + 1 - d)" using dv1 mid unfolding e1 by simp
    have "2 * d dvd (q + 1 - d) + 2 * d" using x by (intro dvd_add dvd_refl)
    moreover have "(q + 1 - d) + 2 * d = q + d + 1" by simp
    ultimately have top': "(2 * d) dvd q + d + 1" by (simp only:)
    have "2 * d dvd W - (q + 1 - d)" using W2 x by (rule dvd_diff)
    moreover have "0 < W - (q + 1 - d)" using q dpos by linarith
    ultimately have "2 * d \<le> W - (q + 1 - d)" by (rule dvd_pos_le)
    then have r: "0 \<le> q + d \<and> q + d < W" using q dpos by linarith
    have "for_step (d - 1) W (2 * d) ?body b q = b (q + d)"
      unfolding lev by (simp only: simp_thms c1 if_True)
    moreover have "b (q + d) = rsum a 0 (q + 1 - d)"
    proof -
      have "b (q + d) = (if 2 ^ Suc k dvd q + d + 1 then rsum a 0 (q + d + 1 - 2 ^ Suc k)
                   else rsum a (q + d + 1 - 2 ^ lvl (Suc k) (q + d)) (q + d + 1))"
        using inv r unfolding down_inv_def by blast
      then have "b (q + d) = rsum a 0 (q + d + 1 - 2 * d)"
        unfolding d2 using top' by (simp only: if_True)
      then show ?thesis by (simp add: algebra_simps)
    qed
    moreover have "?goal = rsum a 0 (q + 1 - d)"
      unfolding d [symmetric] using mid(1) by simp
    ultimately show ?thesis by simp
  next
    case low
    have nt: "\<not> (2 * d) dvd q + 1" using low half by blast
    have c1: "\<not> (d - 1 \<le> q \<and> q < W \<and> (2 * d) dvd (q - (d - 1)))" using dv1 low by simp
    have c2: "\<not> (d - 1 + d \<le> q \<and> q < W + d \<and> (2 * d) dvd (q - (d - 1 + d)))"
      using dv2 nt by simp
    have "for_step (d - 1) W (2 * d) ?body b q = b q"
      unfolding lev by (simp only: simp_thms c1 c2 if_False)
    moreover have "b q = rsum a (q + 1 - 2 ^ lvl k q) (q + 1)"
    proof -
      have l: "lvl (Suc k) q = lvl k q" using nt unfolding d2 [symmetric] by simp
      have "b q = (if 2 ^ Suc k dvd q + 1 then rsum a 0 (q + 1 - 2 ^ Suc k)
                   else rsum a (q + 1 - 2 ^ lvl (Suc k) q) (q + 1))"
        using inv q unfolding down_inv_def by blast
      then have "b q = rsum a (q + 1 - 2 ^ lvl (Suc k) q) (q + 1)"
        unfolding d2 using nt by (simp only: if_False)
      then show ?thesis unfolding l .
    qed
    moreover have "?goal = rsum a (q + 1 - 2 ^ lvl k q) (q + 1)"
      using low unfolding d by simp
    ultimately show ?thesis by simp
  qed
qed

lemma down_sweep_inv:
  assumes "down_inv a k b (2 ^ m)" "k \<le> m"
  shows "down_inv a 0 (down_sweep (2 ^ k div 2) (2 ^ m) b) (2 ^ m)"
  using assms
proof (induction k arbitrary: b)
  case 0
  then show ?case by (subst down_sweep.simps) simp
next
  case (Suc k)
  then have km: "k < m" by simp
  let ?b = "for_step (2 ^ k - 1) (2 ^ m) (2 * 2 ^ k) (\<lambda>i lb. let temp = lb i; lb1 = lb(i := lb (i + 2 ^ k))
                      in lb1(i + 2 ^ k := lb1 (i + 2 ^ k) + temp)) b"
  have h: "(2::int) ^ Suc k div 2 = 2 ^ k" by simp
  have step: "down_sweep (2 ^ k) (2 ^ m) b = down_sweep (2 ^ k div 2) (2 ^ m) ?b"
    by (subst down_sweep.simps) simp
  have "down_inv a k ?b (2 ^ m)"
    by (rule down_level_inv [OF Suc.prems(1) km refl refl])
  then have "down_inv a 0 (down_sweep (2 ^ k div 2) (2 ^ m) ?b) (2 ^ m)"
    using km by (intro Suc.IH) auto
  then show ?case unfolding h step .
qed

definition pad :: "int_array \<Rightarrow> int \<Rightarrow> int \<Rightarrow> int_array" where
  "pad v size' begin_idx i = (if i + begin_idx < size' then v (i + begin_idx) else 0)"

lemma load_buffer:
  assumes "0 \<le> i" "i < W"
  shows "for_loop 0 W (\<lambda>i lb. if i + begin_idx < size' then lb(i := v (i + begin_idx))
                                      else lb(i := 0)) lb0 i = pad v size' begin_idx i"
  by (rule for_loop_at [where g = "\<lambda>_. pad v size' begin_idx i", OF assms])
     (auto simp: pad_def)

lemma store_buffer:
  "for_loop 0 W (\<lambda>i v. if i + begin_idx < size' then v(i + begin_idx := lb i) else v) (v :: int_array) mm
   = (if begin_idx \<le> mm \<and> mm < begin_idx + W \<and> mm < size' then lb (mm - begin_idx) else v mm)"
proof (cases "begin_idx \<le> mm \<and> mm < begin_idx + W")
  case True
  have "for_loop 0 W (\<lambda>i v. if i + begin_idx < size' then v(i + begin_idx := lb i) else v) v mm
        = (if mm < size' then lb (mm - begin_idx) else v mm)"
    by (rule for_loop_at [where ?i0.0 = "mm - begin_idx"
             and g = "\<lambda>x. if mm < size' then lb (mm - begin_idx) else x"])
       (use True in auto)
  then show ?thesis using True by simp
next
  case False
  have "for_loop 0 W (\<lambda>i v. if i + begin_idx < size' then v(i + begin_idx := lb i) else v) v mm = v mm"
    by (rule for_loop_other) (use False in auto)
  then show ?thesis using False by auto
qed

lemma block_scan:
  fixes lb0 :: int_array
  assumes lb0: "\<And>i. 0 \<le> i \<Longrightarrow> i < 2 ^ m \<Longrightarrow> lb0 i = a i"
  defines "lb1 \<equiv> up_sweep 1 (2 ^ m) lb0"
  shows "lb1 (2 ^ m - 1) = rsum a 0 (2 ^ m)"
    and "0 \<le> p \<Longrightarrow> p < 2 ^ m \<Longrightarrow>
         down_sweep (2 ^ m div 2) (2 ^ m) (lb1(2 ^ m - 1 := 0)) p = rsum a 0 p"
proof -
  have "up_inv a 0 lb0 (2 ^ m)"
    unfolding up_inv_def using lb0 by (simp add: rsum_single)
  then have "up_inv a m (up_sweep (2 ^ 0) (2 ^ m) lb0) (2 ^ m)"
    by (rule up_sweep_inv) simp
  then have up: "up_inv a m lb1 (2 ^ m)" unfolding lb1_def by simp
  have top: "lvl m (2 ^ m - 1) = m" by (rule lvl_top) simp
  have "lb1 (2 ^ m - 1) = rsum a (2 ^ m - 1 + 1 - 2 ^ lvl m (2 ^ m - 1)) (2 ^ m - 1 + 1)"
    using up unfolding up_inv_def by simp
  then show "lb1 (2 ^ m - 1) = rsum a 0 (2 ^ m)" unfolding top by simp
  have di: "down_inv a m (lb1(2 ^ m - 1 := 0)) (2 ^ m)"
    unfolding down_inv_def
  proof (intro allI impI)
    fix q :: int
    assume q: "0 \<le> q \<and> q < 2 ^ m"
    show "(lb1(2 ^ m - 1 := 0)) q =
        (if 2 ^ m dvd q + 1 then rsum a 0 (q + 1 - 2 ^ m) else rsum a (q + 1 - 2 ^ lvl m q) (q + 1))"
    proof (cases "q = 2 ^ m - 1")
      case True
      then show ?thesis by simp
    next
      case False
      have "\<not> (2::int) ^ m dvd q + 1"
      proof
        assume "(2::int) ^ m dvd q + 1"
        moreover have "0 < q + 1" using q by simp
        ultimately have "2 ^ m \<le> q + 1" by (rule dvd_pos_le)
        then show False using q False by simp
      qed
      moreover have "lb1 q = rsum a (q + 1 - 2 ^ lvl m q) (q + 1)"
        using up q unfolding up_inv_def by blast
      ultimately show ?thesis using False by simp
    qed
  qed
  have "down_inv a 0 (down_sweep (2 ^ m div 2) (2 ^ m) (lb1(2 ^ m - 1 := 0))) (2 ^ m)"
    by (rule down_sweep_inv [OF di]) simp
  then show "0 \<le> p \<Longrightarrow> p < 2 ^ m \<Longrightarrow>
         down_sweep (2 ^ m div 2) (2 ^ m) (lb1(2 ^ m - 1 := 0)) p = rsum a 0 p"
    unfolding down_inv_def by simp
qed

lemma rsum_cong: "(\<And>j. lo \<le> j \<Longrightarrow> j < hi \<Longrightarrow> f j = g j) \<Longrightarrow> rsum f lo hi = rsum g lo hi"
  unfolding rsum_def by (rule sum.cong) auto

lemma rsum_shift: "rsum (\<lambda>i. f (i + c)) lo hi = rsum f (lo + c) (hi + c)"
  unfolding rsum_def
  by (rule sum.reindex_bij_witness [where i = "\<lambda>j. j - c" and j = "\<lambda>i. i + c"]) auto

lemma rsum_pad: "rsum (pad v size' c) 0 x = rsum (pad v size' 0) c (c + x)"
proof -
  have "pad v size' c = (\<lambda>i. pad v size' 0 (i + c))" by (auto simp: pad_def fun_eq_iff)
  then show ?thesis using rsum_shift [of "pad v size' 0" c 0 x] by (simp add: add.commute)
qed

lemma scan_block_eq:
  "scan_block (2 ^ m) size' b (v, bs) =
     ((\<lambda>mm. if b * 2 ^ m \<le> mm \<and> mm < b * 2 ^ m + 2 ^ m \<and> mm < size'
            then rsum (pad v size' (b * 2 ^ m)) 0 (mm - b * 2 ^ m) else v mm),
      bs(b := rsum (pad v size' (b * 2 ^ m)) 0 (2 ^ m)))"
proof -
  define lb0 where "lb0 = for_loop 0 (2 ^ m)
      (\<lambda>i lb. if i + b * 2 ^ m < size' then lb(i := v (i + b * 2 ^ m)) else lb(i := 0))
      (\<lambda>i. undefined :: 32 word)"
  have l: "\<And>i. 0 \<le> i \<Longrightarrow> i < 2 ^ m \<Longrightarrow> lb0 i = pad v size' (b * 2 ^ m) i"
    unfolding lb0_def by (rule load_buffer)
  note sc = block_scan [of m lb0 "pad v size' (b * 2 ^ m)", OF l]
  have "scan_block (2 ^ m) size' b (v, bs) =
     (for_loop 0 (2 ^ m) (\<lambda>i v. if i + b * 2 ^ m < size'
          then v(i + b * 2 ^ m := down_sweep (2 ^ m div 2) (2 ^ m)
                    ((up_sweep 1 (2 ^ m) lb0)(2 ^ m - 1 := 0)) i) else v) v,
      bs(b := up_sweep 1 (2 ^ m) lb0 (2 ^ m - 1)))"
    unfolding scan_block_def lb0_def Let_def prod.case ..
  also have "\<dots> = ((\<lambda>mm. if b * 2 ^ m \<le> mm \<and> mm < b * 2 ^ m + 2 ^ m \<and> mm < size'
            then rsum (pad v size' (b * 2 ^ m)) 0 (mm - b * 2 ^ m) else v mm),
      bs(b := rsum (pad v size' (b * 2 ^ m)) 0 (2 ^ m)))"
    unfolding store_buffer
    by (auto simp: fun_eq_iff sc)
  finally show ?thesis .
qed

lemma div_block:
  fixes W :: int
  assumes "0 < W" "n * W \<le> mm" "mm < n * W + W"
  shows "mm div W = n"
proof -
  have "mm = n * W + (mm - n * W)" by simp
  moreover have "0 \<le> mm - n * W" "mm - n * W < W" using assms by auto
  ultimately show ?thesis
    by (metis assms(1) div_pos_pos_trivial add.right_neutral div_mult_self3 less_irrefl)
qed

definition scanned :: "int \<Rightarrow> int \<Rightarrow> int_array \<Rightarrow> int_array \<Rightarrow> int \<Rightarrow> int_array \<times> int_array \<Rightarrow> bool" where
  "scanned W size' v bs0 n s \<longleftrightarrow>
     (\<forall>mm. fst s mm = (if 0 \<le> mm \<and> mm < n * W \<and> mm < size'
                        then rsum (pad v size' 0) (mm div W * W) mm else v mm)) \<and>
     (\<forall>k. snd s k = (if 0 \<le> k \<and> k < n then rsum (pad v size' 0) (k * W) (k * W + W) else bs0 k))"

lemma scanned_step:
  fixes W :: int
  assumes W: "W = 2 ^ m" and n: "0 \<le> n" and inv: "scanned W size' v bs0 n s"
  shows "scanned W size' v bs0 (n + 1) (scan_block W size' n s)"
proof -
  have Wpos: "0 < W" unfolding W by simp
  obtain v1 bs1 where s: "s = (v1, bs1)" by (cases s)
  have v1: "\<And>mm. v1 mm = (if 0 \<le> mm \<and> mm < n * W \<and> mm < size'
                        then rsum (pad v size' 0) (mm div W * W) mm else v mm)"
    and bs1: "\<And>k. bs1 k = (if 0 \<le> k \<and> k < n then rsum (pad v size' 0) (k * W) (k * W + W) else bs0 k)"
    using inv unfolding scanned_def s by simp_all
  have padeq: "rsum (pad v1 size' (n * W)) 0 x = rsum (pad v size' 0) (n * W) (n * W + x)" for x
  proof -
    have "rsum (pad v1 size' (n * W)) 0 x = rsum (pad v size' (n * W)) 0 x"
    proof (rule rsum_cong)
      fix j :: int assume "0 \<le> j" "j < x"
      then have "\<not> (j + n * W < n * W)" by simp
      then have "v1 (j + n * W) = v (j + n * W)" unfolding v1 by simp
      then show "pad v1 size' (n * W) j = pad v size' (n * W) j" by (simp add: pad_def)
    qed
    then show ?thesis by (simp add: rsum_pad)
  qed
  have eq: "scan_block W size' n s =
     ((\<lambda>mm. if n * W \<le> mm \<and> mm < n * W + W \<and> mm < size'
            then rsum (pad v size' 0) (n * W) mm else v1 mm),
      bs1(n := rsum (pad v size' 0) (n * W) (n * W + W)))"
    unfolding s W scan_block_eq padeq [unfolded W] by (simp add: fun_eq_iff)
  have nW: "(n + 1) * W = n * W + W" by (simp add: algebra_simps)
  have nW0: "0 \<le> n * W" using n Wpos by simp
  show ?thesis
    unfolding scanned_def eq fst_conv snd_conv nW
  proof (intro conjI allI)
    fix mm :: int
    show "(if n * W \<le> mm \<and> mm < n * W + W \<and> mm < size' then rsum (pad v size' 0) (n * W) mm else v1 mm)
        = (if 0 \<le> mm \<and> mm < n * W + W \<and> mm < size' then rsum (pad v size' 0) (mm div W * W) mm else v mm)"
    proof (cases "n * W \<le> mm \<and> mm < n * W + W")
      case True
      then have "mm div W = n" using div_block [OF Wpos] by simp
      then show ?thesis using True nW0 by (simp add: v1)
    next
      case False
      then show ?thesis unfolding v1 using Wpos by auto
    qed
  next
    fix k :: int
    show "(bs1(n := rsum (pad v size' 0) (n * W) (n * W + W))) k =
         (if 0 \<le> k \<and> k < n + 1 then rsum (pad v size' 0) (k * W) (k * W + W) else bs0 k)"
      unfolding bs1 using n by auto
  qed
qed

lemma scanned_loop:
  fixes W :: int
  assumes W: "W = 2 ^ m" and n: "0 \<le> n"
  shows "scanned W size' v bs0 n (for_loop 0 n (scan_block W size') (v, bs0))"
proof (rule for_loop_inv [where P = "scanned W size' v bs0"])
  show "scanned W size' v bs0 0 (v, bs0)" by (auto simp: scanned_def)
  show "0 \<le> n" by fact
  show "\<And>i s. 0 \<le> i \<Longrightarrow> i < n \<Longrightarrow> scanned W size' v bs0 i s
        \<Longrightarrow> scanned W size' v bs0 (i + 1) (scan_block W size' i s)"
    by (rule scanned_step [OF W])
qed

lemma mult_less_cancel_pos: "a * W < b * W \<Longrightarrow> 0 < (W::int) \<Longrightarrow> a < b"
  by (simp add: mult_less_cancel_right)

lemma add_row:
  "for_loop 0 W (\<lambda>i v. if i + begin_idx < size'
                            then v(i + begin_idx := v (i + begin_idx) + c) else v) (v :: int_array) mm
   = (if begin_idx \<le> mm \<and> mm < begin_idx + W \<and> mm < size' then v mm + c else v mm)"
proof (cases "begin_idx \<le> mm \<and> mm < begin_idx + W")
  case True
  have "for_loop 0 W (\<lambda>i v. if i + begin_idx < size'
                            then v(i + begin_idx := v (i + begin_idx) + c) else v) v mm
        = (if mm < size' then v mm + c else v mm)"
    by (rule for_loop_at [where ?i0.0 = "mm - begin_idx"
             and g = "\<lambda>x. if mm < size' then x + c else x"])
       (use True in auto)
  then show ?thesis using True by simp
next
  case False
  have "for_loop 0 W (\<lambda>i v. if i + begin_idx < size'
                            then v(i + begin_idx := v (i + begin_idx) + c) else v) v mm = v mm"
    by (rule for_loop_other) (use False in auto)
  then show ?thesis using False by auto
qed

lemma add_block_sums_eq:
  fixes W :: int
  assumes W: "0 < W" and n: "1 \<le> num_blocks"
  shows "add_block_sums W size' num_blocks block_sum v mm =
         (if W \<le> mm \<and> mm < num_blocks * W \<and> mm < size' then v mm + block_sum (mm div W) else v mm)"
proof -
  let ?P = "\<lambda>n (v' :: int_array). \<forall>mm. v' mm =
         (if 1 * W \<le> mm \<and> mm < n * W \<and> mm < size' then v mm + block_sum (mm div W) else v mm)"
  have "?P num_blocks (add_block_sums W size' num_blocks block_sum v)"
    unfolding add_block_sums_def Let_def
  proof (rule for_loop_inv [where P = ?P])
    show "?P 1 v" by auto
    show "1 \<le> num_blocks" by fact
    fix i :: int and s :: int_array
    assume i: "1 \<le> i" "i < num_blocks" and inv: "?P i s"
    have iW: "(i + 1) * W = i * W + W" by (simp add: algebra_simps)
    have le: "1 * W \<le> i * W" using i(1) W by (intro mult_right_mono) auto
    show "?P (i + 1) (for_loop 0 W (\<lambda>ia v. if ia + i * W < size'
              then v(ia + i * W := v (ia + i * W) + block_sum i) else v) s)"
      unfolding add_row iW
    proof
      fix mm :: int
      show "(if i * W \<le> mm \<and> mm < i * W + W \<and> mm < size' then s mm + block_sum i else s mm) =
         (if 1 * W \<le> mm \<and> mm < i * W + W \<and> mm < size' then v mm + block_sum (mm div W) else v mm)"
      proof (cases "i * W \<le> mm \<and> mm < i * W + W")
        case True
        then have d: "mm div W = i" using div_block [OF W] by simp
        have "s mm = v mm" using inv True by simp
        moreover have "W \<le> mm" using le True by linarith
        ultimately show ?thesis using True d by simp
      next
        case False
        have "s mm = (if 1 * W \<le> mm \<and> mm < i * W \<and> mm < size' then v mm + block_sum (mm div W) else v mm)"
          using inv by blast
        then show ?thesis using False W by auto
      qed
    qed
  qed
  then show ?thesis by simp
qed

lemma blocks_concat:
  fixes W :: int
  assumes W: "0 < W" and bs: "\<And>k'. 0 \<le> k' \<Longrightarrow> k' < n \<Longrightarrow> bs k' = rsum f (k' * W) (k' * W + W)"
    and k: "0 \<le> k" "k \<le> n"
  shows "rsum bs 0 k = rsum f 0 (k * W)"
  using k
proof (induction k rule: int_ge_induct)
  case base
  then show ?case by simp
next
  case (step i)
  have "rsum bs 0 (i + 1) = rsum bs 0 i + rsum bs i (i + 1)"
    using step(1) by (intro rsum_concat [symmetric]) auto
  also have "rsum bs i (i + 1) = bs i" by (rule rsum_single)
  also have "bs i = rsum f (i * W) (i * W + W)" using step by (intro bs) auto
  also have "rsum bs 0 i = rsum f 0 (i * W)" using step by simp
  also have "rsum f 0 (i * W) + rsum f (i * W) (i * W + W) = rsum f 0 (i * W + W)"
    using step(1) W by (intro rsum_concat) auto
  finally show ?case by (simp add: algebra_simps)
qed

lemma num_blocks_bounds:
  fixes W :: int
  assumes W: "0 < W"
  shows "size' \<le> num_blocks_of size' W * W" and "(num_blocks_of size' W - 1) * W < size'"
proof -
  let ?r = "real_of_int size' / real_of_int W"
  have Wr: "0 < real_of_int W" using W by simp
  have "?r \<le> of_int (num_blocks_of size' W)" unfolding num_blocks_of_def by (rule le_of_int_ceiling)
  then have "real_of_int size' \<le> of_int (num_blocks_of size' W) * real_of_int W"
    using Wr by (simp add: pos_divide_le_eq)
  then have "real_of_int size' \<le> real_of_int (num_blocks_of size' W * W)" by simp
  then show "size' \<le> num_blocks_of size' W * W" by (simp only: of_int_le_iff)
  have "of_int (num_blocks_of size' W) - 1 < ?r" unfolding num_blocks_of_def
    using ceiling_correct [of ?r] by simp
  then have "(of_int (num_blocks_of size' W) - 1) * real_of_int W < real_of_int size'"
    using Wr by (simp add: pos_less_divide_eq)
  then have "real_of_int ((num_blocks_of size' W - 1) * W) < real_of_int size'" by simp
  then show "(num_blocks_of size' W - 1) * W < size'" by (simp only: of_int_less_iff)
qed

lemma num_blocks_less:
  fixes W :: int
  assumes W: "2 \<le> W" and n: "1 < num_blocks_of size' W"
  shows "num_blocks_of size' W < size'"
proof -
  let ?n = "num_blocks_of size' W"
  have "(?n - 1) * 2 \<le> (?n - 1) * W" using W n by (intro mult_left_mono) auto
  also have "\<dots> < size'" using num_blocks_bounds(2) [of W size'] W by simp
  finally show ?thesis using n by simp
qed

lemma num_blocks_nonneg:
  fixes W :: int
  assumes W: "0 < W" and s: "0 \<le> size'"
  shows "0 \<le> num_blocks_of size' W"
proof -
  have "0 \<le> real_of_int size' / real_of_int W" using W s by simp
  then show ?thesis unfolding num_blocks_of_def by (simp add: ceiling_le_iff le_ceiling_iff)
qed

definition prefix_sums :: "int_array \<Rightarrow> int \<Rightarrow> int_array option \<Rightarrow> bool" where
  "prefix_sums v size' r \<longleftrightarrow>
     (\<exists>v'. r = Some v' \<and> (\<forall>i. v' i = (if 0 \<le> i \<and> i < size' then rsum v 0 i else v i)))"

lemma prefix_sum_W_sums:
  fixes W :: int
  assumes W: "W = 2 ^ m" and m: "1 \<le> m" and s: "0 \<le> size'"
    and IH: "\<And>bs n. 0 \<le> n \<Longrightarrow> n < size' \<Longrightarrow> prefix_sums bs n (prefix_sum_openacc lbs bs n)"
  shows "prefix_sums v size' (prefix_sum_openacc_W W lbs v size')"
proof -
  let ?n = "num_blocks_of size' W"
  let ?f = "pad v size' 0"
  have Wpos: "0 < W" unfolding W by simp
  have "(2::int) ^ 1 \<le> 2 ^ m" using m by (intro power_increasing) auto
  then have W2: "2 \<le> W" unfolding W by simp
  have n0: "0 \<le> ?n" by (rule num_blocks_nonneg [OF Wpos s])
  obtain v1 bs1 where loop: "for_loop 0 ?n (scan_block W size') (v, (\<lambda>i. undefined)) = (v1, bs1)"
    by (cases "for_loop 0 ?n (scan_block W size') (v, (\<lambda>i. undefined :: 32 word))")
  have sc: "scanned W size' v (\<lambda>i. undefined) ?n (v1, bs1)"
    using scanned_loop [OF W n0, of size' v "\<lambda>i. undefined"] unfolding loop .
  have cover: "size' \<le> ?n * W" by (rule num_blocks_bounds(1) [OF Wpos])
  have v1: "v1 mm = (if 0 \<le> mm \<and> mm < size' then rsum ?f (mm div W * W) mm else v mm)" for mm
    using sc cover unfolding scanned_def by auto
  have bs1: "\<And>k. 0 \<le> k \<Longrightarrow> k < ?n \<Longrightarrow> bs1 k = rsum ?f (k * W) (k * W + W)"
    using sc unfolding scanned_def by simp
  have fv: "rsum ?f 0 i = rsum v 0 i" if "i \<le> size'" for i
    by (rule rsum_cong) (use that in \<open>auto simp: pad_def\<close>)
  have unf: "prefix_sum_openacc_W W lbs v size' =
      (if ?n > 1 then Option.bind (prefix_sum_openacc lbs bs1 ?n)
             (\<lambda>block_sum'. Some (add_block_sums W size' ?n block_sum' v1))
       else Some v1)"
    unfolding prefix_sum_openacc_W_def Let_def loop prod.case ..
  show ?thesis
  proof (cases "?n > 1")
    case False
    have "v1 i = (if 0 \<le> i \<and> i < size' then rsum v 0 i else v i)" for i
    proof (cases "0 \<le> i \<and> i < size'")
      case True
      have "i < W"
      proof (rule ccontr)
        assume "\<not> i < W"
        then have "1 * W < size'" using True by simp
        also have "\<dots> \<le> ?n * W" by (rule cover)
        finally have "1 < ?n" using Wpos by (rule mult_less_cancel_pos)
        then show False using False by simp
      qed
      then have "i div W = 0" using True by simp
      then show ?thesis using True fv [of i] by (simp add: v1)
    next
      case False
      then show ?thesis by (auto simp: v1)
    qed
    then show ?thesis unfolding unf prefix_sums_def using False by simp
  next
    case True
    have lt: "?n < size'" by (rule num_blocks_less [OF W2 True])
    obtain bs' where r: "prefix_sum_openacc lbs bs1 ?n = Some bs'"
      and bs': "\<And>i. bs' i = (if 0 \<le> i \<and> i < ?n then rsum bs1 0 i else bs1 i)"
      using IH [OF n0 lt, of bs1] unfolding prefix_sums_def by blast
    have "add_block_sums W size' ?n bs' v1 i = (if 0 \<le> i \<and> i < size' then rsum v 0 i else v i)" for i
    proof (cases "0 \<le> i \<and> i < size'")
      case False
      then show ?thesis using Wpos True by (auto simp: add_block_sums_eq v1)
    next
      case in_range: True
      let ?k = "i div W"
      have k0: "0 \<le> ?k" using in_range Wpos by (simp add: pos_imp_zdiv_nonneg_iff)
      have "?k * W + i mod W = i" by (rule div_mult_mod_eq)
      moreover have "0 \<le> i mod W" using Wpos by simp
      ultimately have kle: "?k * W \<le> i" by linarith
      have "?k * W < ?n * W" using kle in_range cover by simp
      then have kn: "?k < ?n" using Wpos by (rule mult_less_cancel_pos)
      have vi: "v1 i = rsum ?f (?k * W) i" using in_range by (simp add: v1)
      show ?thesis
      proof (cases "W \<le> i")
        case False
        then have "?k = 0" using in_range by simp
        then show ?thesis using False in_range Wpos True vi fv [of i]
          by (simp add: add_block_sums_eq)
      next
        case ge: True
        have "bs' ?k = rsum bs1 0 ?k" using k0 kn by (simp add: bs')
        also have "\<dots> = rsum ?f 0 (?k * W)"
          by (rule blocks_concat [OF Wpos bs1 k0]) (use kn in auto)
        finally have b: "bs' ?k = rsum ?f 0 (?k * W)" .
        have kW0: "0 \<le> ?k * W" using k0 Wpos by simp
        have "add_block_sums W size' ?n bs' v1 i = v1 i + bs' ?k"
          using ge in_range cover Wpos True by (simp add: add_block_sums_eq)
        also have "\<dots> = rsum ?f 0 (?k * W) + rsum ?f (?k * W) i" unfolding vi b by simp
        also have "\<dots> = rsum ?f 0 i" using kW0 kle by (rule rsum_concat)
        also have "\<dots> = rsum v 0 i" using in_range by (intro fv) simp
        finally show ?thesis using in_range by simp
      qed
    qed
    then show ?thesis unfolding unf prefix_sums_def r using True by simp
  qed
qed

lemma prefix_sum_openacc_sums:
  assumes lbs: "lbs = 2 ^ m" and m: "1 \<le> m" and s: "0 \<le> size'"
  shows "prefix_sums v size' (prefix_sum_openacc lbs v size')"
  using s
proof (induction "nat size'" arbitrary: size' v rule: less_induct)
  case less
  have IH: "\<And>bs n. 0 \<le> n \<Longrightarrow> n < size' \<Longrightarrow> prefix_sums bs n (prefix_sum_openacc lbs bs n)"
    using less.hyps less.prems by simp
  have min: "prefix_sums v size' (prefix_sum_openacc_W 32 lbs v size')"
    by (rule prefix_sum_W_sums [where m = 5, OF _ _ less.prems IH]) auto
  have full: "prefix_sums v size' (prefix_sum_openacc_W lbs lbs v size')"
    by (rule prefix_sum_W_sums [OF lbs m less.prems IH])
  show ?case
    unfolding prefix_sum_openacc_dispatch prefix_sum_openacc_min_def prefix_sum_openacc_full_def
    using min full by simp
qed

lemma prefix_sum_variant_sums:
  fixes W :: int
  assumes lbs: "lbs = 2 ^ m" and m: "1 \<le> m" and W: "W = 2 ^ mw" and mw: "1 \<le> mw" and s: "0 \<le> size'"
  shows "prefix_sums v size' (prefix_sum_openacc_W W lbs v size')"
  by (rule prefix_sum_W_sums [OF W mw s]) (rule prefix_sum_openacc_sums [OF lbs m])

lemma prefix_sums_unique:
  "prefix_sums v n r \<Longrightarrow> prefix_sums v n r' \<Longrightarrow> r = r'"
  unfolding prefix_sums_def by (auto simp: fun_eq_iff)

lemma rsum_last: "0 < n \<Longrightarrow> rsum v 0 n = rsum v 0 (n - 1) + v (n - 1)"
  using rsum_concat [of 0 "n - 1" n v] rsum_single [of v "n - 1"] by simp

lemma sint_sum_in_range:
  fixes v :: int_array
  assumes "- (2 ^ 31) \<le> (\<Sum>j\<in>A. sint (v j))" and "(\<Sum>j\<in>A. sint (v j)) < 2 ^ 31"
  shows "sint (\<Sum>j\<in>A. v j) = (\<Sum>j\<in>A. sint (v j))"
proof -
  have "(\<Sum>j\<in>A. v j) = (\<Sum>j\<in>A. word_of_int (sint (v j)))" by simp
  also have "\<dots> = word_of_int (\<Sum>j\<in>A. sint (v j))" by (simp only: of_int_sum)
  finally have "(\<Sum>j\<in>A. v j) = word_of_int (\<Sum>j\<in>A. sint (v j))" .
  then have "sint (\<Sum>j\<in>A. v j) = sint (word_of_int (\<Sum>j\<in>A. sint (v j)) :: 32 word)"
    by (rule arg_cong)
  also have "\<dots> = signed_take_bit 31 (\<Sum>j\<in>A. sint (v j))"
    by (subst sint_sbintrunc') simp
  finally have "sint (\<Sum>j\<in>A. v j) = signed_take_bit 31 (\<Sum>j\<in>A. sint (v j))" .
  also have "\<dots> = (\<Sum>j\<in>A. sint (v j))"
    using assms by (intro signed_take_bit_int_eq_self) auto
  finally show ?thesis .
qed

text \<open>
  C7 (as amended).  For \<open>LOCAL_BUFFER_SIZE\<close> a power of two \<open>2 ^ m\<close>, \<open>1 \<le> m \<le> 30\<close>, and a length
  \<open>0 \<le> size \<le> 2 ^ 24\<close>, the dispatcher \<open>prefix_sum_openacc\<close>, the one-warp variant and the
  multi-warp variant all return, with the same array: entry \<open>i\<close> of the first \<open>size\<close> entries is
  the sum, in 32-bit wrap-around arithmetic, of the original entries \<open>j < i\<close>, and every entry
  outside \<open>[0, size)\<close> is unchanged.  Read as a signed integer, entry \<open>i\<close> is the integer sum of
  the original entries \<open>j < i\<close> whenever that sum fits into 32 bits.  The last entry is the sum
  of all original entries but the last one; it equals the sum of all of them exactly when the
  last original entry is \<open>0\<close>.
\<close>

theorem prefix_sum_exclusive:
  assumes "lbs = 2 ^ m" and "1 \<le> m" and "0 \<le> size'" and "size' \<le> 2 ^ 24" and "m \<le> 30"
  shows "\<exists>v'. prefix_sum_openacc lbs v size' = Some v'
            \<and> prefix_sum_openacc_min lbs v size' = Some v'
            \<and> prefix_sum_openacc_full lbs v size' = Some v'
            \<and> (\<forall>i. 0 \<le> i \<and> i < size' \<longrightarrow> v' i = (\<Sum>j = 0..<i. v j))
            \<and> (\<forall>i. 0 \<le> i \<and> i < size' \<and> - (2 ^ 31) \<le> (\<Sum>j = 0..<i. sint (v j))
                     \<and> (\<Sum>j = 0..<i. sint (v j)) < 2 ^ 31
                   \<longrightarrow> sint (v' i) = (\<Sum>j = 0..<i. sint (v j)))
            \<and> (\<forall>i. i < 0 \<or> size' \<le> i \<longrightarrow> v' i = v i)
            \<and> (0 < size' \<longrightarrow>
                 (v' (size' - 1) = (\<Sum>j = 0..<size'. v j) \<longleftrightarrow> v (size' - 1) = 0))"
proof -
  have d: "prefix_sums v size' (prefix_sum_openacc lbs v size')"
    by (rule prefix_sum_openacc_sums [OF assms(1-3)])
  have mn: "prefix_sums v size' (prefix_sum_openacc_min lbs v size')"
    unfolding prefix_sum_openacc_min_def
    by (rule prefix_sum_variant_sums [where mw = 5, OF assms(1,2) _ _ assms(3)]) auto
  have fl: "prefix_sums v size' (prefix_sum_openacc_full lbs v size')"
    unfolding prefix_sum_openacc_full_def
    by (rule prefix_sum_variant_sums [OF assms(1,2) assms(1,2) assms(3)])
  obtain v' where r: "prefix_sum_openacc lbs v size' = Some v'"
    and v': "\<And>i. v' i = (if 0 \<le> i \<and> i < size' then rsum v 0 i else v i)"
    using d unfolding prefix_sums_def by blast
  have r1: "prefix_sum_openacc_min lbs v size' = Some v'"
    using prefix_sums_unique [OF mn d] r by simp
  have r2: "prefix_sum_openacc_full lbs v size' = Some v'"
    using prefix_sums_unique [OF fl d] r by simp
  have s1: "\<forall>i. 0 \<le> i \<and> i < size' \<longrightarrow> v' i = (\<Sum>j = 0..<i. v j)"
    by (simp add: v' rsum_def)
  have s2: "\<forall>i. 0 \<le> i \<and> i < size' \<and> - (2 ^ 31) \<le> (\<Sum>j = 0..<i. sint (v j))
                     \<and> (\<Sum>j = 0..<i. sint (v j)) < 2 ^ 31
                   \<longrightarrow> sint (v' i) = (\<Sum>j = 0..<i. sint (v j))"
  proof (intro allI impI)
    fix i :: int
    assume a: "0 \<le> i \<and> i < size' \<and> - (2 ^ 31) \<le> (\<Sum>j = 0..<i. sint (v j))
                     \<and> (\<Sum>j = 0..<i. sint (v j)) < 2 ^ 31"
    then have "v' i = (\<Sum>j = 0..<i. v j)" using s1 by blast
    moreover have "sint (\<Sum>j = 0..<i. v j) = (\<Sum>j = 0..<i. sint (v j))"
      by (rule sint_sum_in_range) (use a in auto)
    ultimately show "sint (v' i) = (\<Sum>j = 0..<i. sint (v j))" by simp
  qed
  have s3: "\<forall>i. i < 0 \<or> size' \<le> i \<longrightarrow> v' i = v i"
    by (auto simp: v')
  have s4: "0 < size' \<longrightarrow> (v' (size' - 1) = (\<Sum>j = 0..<size'. v j) \<longleftrightarrow> v (size' - 1) = 0)"
  proof
    assume p: "0 < size'"
    have "v' (size' - 1) = rsum v 0 (size' - 1)" using p by (simp add: v')
    moreover have "rsum v 0 size' = rsum v 0 (size' - 1) + v (size' - 1)" using p by (rule rsum_last)
    ultimately show "v' (size' - 1) = (\<Sum>j = 0..<size'. v j) \<longleftrightarrow> v (size' - 1) = 0"
      unfolding rsum_def by simp
  qed
  show ?thesis
    using r r1 r2 s1 s2 s3 s4 by (intro exI [of _ v']) (simp only: simp_thms)
qed

text \<open>An instance: the array \<open>1, 2, 3\<close> becomes \<open>0, 1, 3\<close>; the entry behind it is kept.\<close>

theorem prefix_sum_exclusive_witness:
  "\<exists>v'. prefix_sum_openacc 1024 (\<lambda>i. if i = 0 then 1 else if i = 1 then 2 else 3) 3 = Some v'
        \<and> v' 0 = 0 \<and> v' 1 = 1 \<and> v' 2 = 3 \<and> v' 3 = 3 \<and> sint (v' 2) = 3"
proof -
  let ?v = "\<lambda>i :: int. if i = 0 then 1 else if i = 1 then 2 else 3 :: 32 word"
  have i1: "{0..<1::int} = {0}" by auto
  have i2: "{0..<2::int} = {0, 1}" by auto
  obtain v' where r: "prefix_sum_openacc 1024 ?v 3 = Some v'"
    and s: "\<forall>i. 0 \<le> i \<and> i < 3 \<longrightarrow> v' i = (\<Sum>j = 0..<i. ?v j)"
    and o: "\<forall>i. i < 0 \<or> 3 \<le> i \<longrightarrow> v' i = ?v i"
    using prefix_sum_exclusive [of 1024 10 3 ?v] by auto
  have "v' 0 = 0" using s by simp
  moreover have "v' 1 = 1" using s by (simp add: i1)
  moreover have v2: "v' 2 = 3" using s by (simp add: i2)
  moreover have "v' 3 = 3" using o by simp
  moreover have "sint (v' 2) = 3" unfolding v2 by simp
  ultimately show ?thesis using r by simp
qed

text \<open>
  The array \<open>1, 2\<close> becomes \<open>0, 1\<close>: its last entry is \<open>1\<close>, while the sum of all
  original entries is \<open>3\<close>.
\<close>

theorem prefix_sum_last_entry_counterexample:
  "\<exists>v'. prefix_sum_openacc 1024 (\<lambda>i. if i = 0 then 1 else if i = 1 then 2 else 0) 2 = Some v'
        \<and> v' 0 = 0 \<and> v' 1 = 1
        \<and> (\<Sum>j = (0::int)..<2. (if j = 0 then 1 else if j = 1 then 2 else 0 :: 32 word)) = 3
        \<and> (1 :: 32 word) \<noteq> 3"
proof -
  let ?v = "\<lambda>i :: int. if i = 0 then 1 else if i = 1 then 2 else 0 :: 32 word"
  have i1: "{0..<1::int} = {0}" by auto
  have i2: "{0..<2::int} = {0, 1}" by auto
  have "prefix_sums ?v 2 (prefix_sum_openacc 1024 ?v 2)"
    by (rule prefix_sum_openacc_sums [where m = 10]) auto
  then obtain v' where r: "prefix_sum_openacc 1024 ?v 2 = Some v'"
    and v': "\<And>i. v' i = (if 0 \<le> i \<and> i < 2 then rsum ?v 0 i else ?v i)"
    unfolding prefix_sums_def by blast
  have "v' 0 = 0" by (simp add: v')
  moreover have "v' 1 = 1" by (simp add: v' rsum_def i1)
  moreover have "(\<Sum>j = (0::int)..<2. ?v j) = 3" by (simp add: i2)
  ultimately show ?thesis using r by simp
qed

text \<open>
  The additions wrap: on the array \<open>INT_MAX, 1, 5\<close> entry \<open>2\<close> becomes \<open>INT_MIN\<close>.
\<close>

lemma prefix_sum_wraps:
  "\<exists>v'. prefix_sum_openacc 1024 (\<lambda>i. if i = 0 then 2147483647 else if i = 1 then 1 else 5) 3 = Some v'
        \<and> sint (v' 2) = - 2147483648"
proof -
  let ?v = "\<lambda>i :: int. if i = 0 then 2147483647 else if i = 1 then 1 else 5 :: 32 word"
  have i2: "{0..<2::int} = {0, 1}" by auto
  have "prefix_sums ?v 3 (prefix_sum_openacc 1024 ?v 3)"
    by (rule prefix_sum_openacc_sums [where m = 10]) auto
  then obtain v' where r: "prefix_sum_openacc 1024 ?v 3 = Some v'"
    and v': "\<And>i. v' i = (if 0 \<le> i \<and> i < 3 then rsum ?v 0 i else ?v i)"
    unfolding prefix_sums_def by blast
  have "v' 2 = 2147483648" by (simp add: v' rsum_def i2)
  then have "sint (v' 2) = - 2147483648" by simp
  then show ?thesis using r by simp
qed

end
